theory Spec2Isabelle
  imports Main "HOL-Library.Word" "HOL-Library.Multiset"
begin

unbundle bit_operations_syntax

section \<open>Data model of runtime/hashmap.go\<close>

text \<open>
  Machine integers are words: \<open>uintptr\<close> is 64 bits wide (the pointer width W of the
  specification), hashes are 32 bits, tophash tags and \<open>bucketBits\<close> are 8 bits.
  Keys and values are raw byte blocks.
\<close>

type_synonym u8 = "8 word"
type_synonym u32 = "32 word"
type_synonym u64 = "64 word"
type_synonym uintptr = "64 word"
type_synonym bytes = "u8 list"

text \<open>
  The two raw byte primitives. \<open>memcpy dst src n\<close> is the destination buffer after
  \<open>n\<close> bytes of \<open>src\<close> were copied to its start, \<open>memzero dst n\<close> the buffer after
  its first \<open>n\<close> bytes were zeroed. A buffer shorter than \<open>n\<close> is overrun in the source;
  here the result is then longer than the buffer was.
\<close>

definition memcpy :: "bytes \<Rightarrow> bytes \<Rightarrow> uintptr \<Rightarrow> bytes" where
  "memcpy dst src n = take (unat n) src @ drop (unat n) dst"

definition memzero :: "bytes \<Rightarrow> uintptr \<Rightarrow> bytes" where
  "memzero dst n = replicate (unat n) 0 @ drop (unat n) dst"

definition memequal :: "bytes \<Rightarrow> bytes \<Rightarrow> uintptr \<Rightarrow> bool" where
  "memequal x y n = (take (unat n) x = take (unat n) y)"

text \<open>
  A bucket: eight tophash tags, eight key cells of \<open>keySize\<close> bytes and eight value
  cells of \<open>valueSize\<close> bytes. The \<open>next\<close> pointer of the source is the position in
  the chain: a chain is the list of its buckets, the primary bucket first, and the
  successor of the last bucket is nil. The source writes \<open>next\<close> in one place only
  (hashmapSet, on the last bucket of a chain, with a bucket it has just allocated),
  so a chain is a list.
\<close>

record hashmapBucket =
  tophash :: "u8 list"
  keys :: "bytes list"
  vals :: "bytes list"

type_synonym chain = "hashmapBucket list"

datatype hashmapAlgorithm =
  hashmapAlgorithmBinary | hashmapAlgorithmString | hashmapAlgorithmInterface

text \<open>
  The ways a call can end without returning: the nil-map panic of the set operations,
  the dereference of a nil pointer, the panic of the structural hash on a value that
  cannot be compared, and the exhausted call budget of the model (see hashmapSet).
\<close>

datatype fault = NilMapPanic | NilPointerDeref | UncomparablePanic | OutOfFuel

text \<open>
  The table header. \<open>buckets\<close> is the address of the primary bucket array; the two
  function pointers are function-valued fields. A call of the hash function returns the
  hash or panics.
\<close>

record hashmap =
  buckets :: nat
  seed :: uintptr
  count :: uintptr
  keySize :: uintptr
  valueSize :: uintptr
  bucketBits :: u8
  keyEqual :: "bytes \<Rightarrow> bytes \<Rightarrow> uintptr \<Rightarrow> bool"
  keyHash :: "bytes \<Rightarrow> uintptr \<Rightarrow> uintptr \<Rightarrow> fault + u32"

text \<open>
  The iterator. \<open>buckets_it\<close> is the snapshot of the table's array pointer (nil before
  the first call), \<open>bucket\<close> the current bucket, given by its primary index and its
  position in that chain (nil between chains).
\<close>

record hashmapIterator =
  buckets_it :: "nat option"
  numBuckets :: uintptr
  bucketNumber :: uintptr
  bucket :: "(nat \<times> nat) option"
  bucketIndex :: u8

definition hashmapNewIterator :: hashmapIterator where
  "hashmapNewIterator =
     \<lparr>buckets_it = None, numBuckets = 0, bucketNumber = 0, bucket = None, bucketIndex = 0\<rparr>"

text \<open>
  The memory the table lives in: the primary bucket arrays by address (an array is the
  list of its chains), the allocator's next free address, and the pseudo-random source
  \<open>fastrand\<close> as the sequence of its outputs with a cursor. Allocation returns zeroed
  memory of the size it is asked for and does not fail.
\<close>

record memory =
  arrays :: "nat \<Rightarrow> chain list"
  nextAddr :: nat
  rand :: "nat \<Rightarrow> u32"
  randPos :: nat

definition fastrand :: "memory \<Rightarrow> u32 \<times> memory" where
  "fastrand h = (rand h (randPos h), h\<lparr>randPos := randPos h + 1\<rparr>)"

definition zeroBucket :: "uintptr \<Rightarrow> uintptr \<Rightarrow> hashmapBucket" where
  "zeroBucket ks vs =
     \<lparr>tophash = replicate 8 0,
      keys = replicate 8 (replicate (unat ks) 0),
      vals = replicate 8 (replicate (unat vs) 0)\<rparr>"

text \<open>
  The size of a bucket in bytes, computed in \<open>uintptr\<close> as the source does: the header
  (eight tophash bytes and the \<open>next\<close> pointer, 16 bytes) and eight key and eight value
  cells. hashmapMake writes the same expression out.
\<close>

definition bucketBufSize :: "uintptr \<Rightarrow> uintptr \<Rightarrow> uintptr" where
  "bucketBufSize ks vs = 16 + ks * 8 + vs * 8"

text \<open>
  \<open>alloc(sz)\<close> for a primary array: \<open>sz\<close> zeroed bytes at a fresh address. The array
  holds the buckets that fit into \<open>sz\<close> bytes; the size is the \<open>uintptr\<close> the caller
  computed, so an array whose size wrapped around is shorter than the caller assumes.
\<close>

definition allocBuckets :: "uintptr \<Rightarrow> uintptr \<Rightarrow> uintptr \<Rightarrow> memory \<Rightarrow> nat \<times> memory" where
  "allocBuckets ks vs sz h =
     (nextAddr h,
      h\<lparr>arrays := (arrays h)(nextAddr h :=
           replicate (unat sz div unat (bucketBufSize ks vs)) [zeroBucket ks vs]),
        nextAddr := nextAddr h + 1\<rparr>)"

text \<open>
  Code of the runtime outside this file: the byte hash \<open>hash32\<close>, string contents
  behind a string header, the reflection of a boxed value and the equality of boxed
  values. They are parameters of the model.
\<close>

datatype rvalue =
    RNil
  | RInt bytes
  | RUint bytes
  | RFloat32 u32
  | RFloat64 u64
  | RComplex64 u32 u32
  | RComplex128 u64 u64
  | RString bytes
  | RPtr bytes
  | RArray "rvalue list"
  | RStruct "rvalue list"
  | ROther

record externals =
  hash32 :: "bytes \<Rightarrow> uintptr \<Rightarrow> uintptr \<Rightarrow> u32"
  stringContents :: "bytes \<Rightarrow> bytes"
  reflectValueOf :: "bytes \<Rightarrow> rvalue"
  interfaceEqual :: "bytes \<Rightarrow> bytes \<Rightarrow> bool"

section \<open>Sizing and construction\<close>

definition hashmapTopHash :: "u32 \<Rightarrow> u8" where
  "hashmapTopHash hash =
     (let tophash = (ucast (drop_bit 24 hash) :: u8)
      in if tophash < 1 then tophash + 1 else tophash)"

definition hashmapHasSpaceToGrow :: "u8 \<Rightarrow> bool" where
  "hashmapHasSpaceToGrow bits = (bits \<le> (ucast ((8 * 8 - 3) :: uintptr) :: u8))"

definition hashmapOverLoadFactor :: "uintptr \<Rightarrow> u8 \<Rightarrow> bool" where
  "hashmapOverLoadFactor n bits = (n > push_bit (unat bits) (6 :: uintptr))"

function hashmapMakeBits :: "uintptr \<Rightarrow> u8 \<Rightarrow> u8" where
  "hashmapMakeBits sizeHint bits =
     (if hashmapHasSpaceToGrow bits \<and> hashmapOverLoadFactor sizeHint bits
      then hashmapMakeBits sizeHint (bits + 1) else bits)"
  by pat_completeness auto
termination
proof (relation "measure (\<lambda>(s, b). 256 - unat b)")
  show "wf (measure (\<lambda>(s :: uintptr, b :: u8). 256 - unat b))" by simp
next
  fix sizeHint :: uintptr and bits :: u8
  assume "hashmapHasSpaceToGrow bits \<and> hashmapOverLoadFactor sizeHint bits"
  then have "bits \<le> 61" by (simp add: hashmapHasSpaceToGrow_def)
  then have "unat bits \<le> 61" by (simp add: word_le_nat_alt)
  then have "unat (bits + 1) = unat bits + 1" by (simp add: unat_word_ariths)
  then show "((sizeHint, bits + 1), (sizeHint, bits)) \<in> measure (\<lambda>(s, b). 256 - unat b)"
    using \<open>unat bits \<le> 61\<close> by simp
qed


definition hashmapKeyEqualAlg ::
  "externals \<Rightarrow> hashmapAlgorithm \<Rightarrow> bytes \<Rightarrow> bytes \<Rightarrow> uintptr \<Rightarrow> bool" where
  "hashmapKeyEqualAlg ext alg =
     (case alg of
        hashmapAlgorithmBinary \<Rightarrow> memequal
      | hashmapAlgorithmString \<Rightarrow> (\<lambda>x y n. stringContents ext x = stringContents ext y)
      | hashmapAlgorithmInterface \<Rightarrow> (\<lambda>x y n. interfaceEqual ext x y))"

section \<open>Structural hash of the interface discipline\<close>

text \<open>
  \<open>le_bytes n w\<close> is the little-endian memory image of the low \<open>n\<close> bytes of \<open>w\<close>,
  what \<open>hash32\<close> reads through a pointer to the local copy \<open>f\<close>.
\<close>

definition le_bytes :: "nat \<Rightarrow> 'a::len word \<Rightarrow> bytes" where
  "le_bytes n w = map (\<lambda>i. ucast (drop_bit (8 * i) w)) [0..<n]"

definition hashmapFloat32Hash :: "externals \<Rightarrow> u32 \<Rightarrow> uintptr \<Rightarrow> u32" where
  "hashmapFloat32Hash ext f0 sd =
     (let f = (if f0 = 0x80000000 then 0 else f0)
      in hash32 ext (le_bytes 4 f) 4 sd)"

definition hashmapFloat64Hash :: "externals \<Rightarrow> u64 \<Rightarrow> uintptr \<Rightarrow> u32" where
  "hashmapFloat64Hash ext f0 sd =
     (let f = (if f0 = 0x8000000000000000 then 0 else f0)
      in hash32 ext (le_bytes 8 f) 8 sd)"

definition hashmapStringHash :: "externals \<Rightarrow> bytes \<Rightarrow> uintptr \<Rightarrow> u32" where
  "hashmapStringHash ext s sd = hash32 ext s (of_nat (length s)) sd"

text \<open>
  hashmapInterfaceHash, over the reflected value: one equation per case of the
  switch on the kind; an un-comparable kind is the runtime panic.
\<close>

fun hashmapInterfaceHash :: "externals \<Rightarrow> rvalue \<Rightarrow> uintptr \<Rightarrow> fault + u32" where
  "hashmapInterfaceHash ext RNil sd = Inr 0"
| "hashmapInterfaceHash ext (RInt b) sd = Inr (hash32 ext b (of_nat (length b)) sd)"
| "hashmapInterfaceHash ext (RUint b) sd = Inr (hash32 ext b (of_nat (length b)) sd)"
| "hashmapInterfaceHash ext (RFloat32 f) sd = Inr (hashmapFloat32Hash ext f sd)"
| "hashmapInterfaceHash ext (RFloat64 f) sd = Inr (hashmapFloat64Hash ext f sd)"
| "hashmapInterfaceHash ext (RComplex64 r i) sd =
     Inr (hashmapFloat32Hash ext r sd XOR hashmapFloat32Hash ext i sd)"
| "hashmapInterfaceHash ext (RComplex128 r i) sd =
     Inr (hashmapFloat64Hash ext r sd XOR hashmapFloat64Hash ext i sd)"
| "hashmapInterfaceHash ext (RString s) sd = Inr (hashmapStringHash ext s sd)"
| "hashmapInterfaceHash ext (RPtr b) sd = Inr (hash32 ext b (of_nat (length b)) sd)"
| "hashmapInterfaceHash ext (RArray []) sd = Inr 0"
| "hashmapInterfaceHash ext (RArray (x # xs)) sd =
     (case hashmapInterfaceHash ext x sd of
        Inl e \<Rightarrow> Inl e
      | Inr hx \<Rightarrow>
          (case hashmapInterfaceHash ext (RArray xs) sd of
             Inl e \<Rightarrow> Inl e
           | Inr hxs \<Rightarrow> Inr (hx XOR hxs)))"
| "hashmapInterfaceHash ext (RStruct []) sd = Inr 0"
| "hashmapInterfaceHash ext (RStruct (x # xs)) sd =
     (case hashmapInterfaceHash ext x sd of
        Inl e \<Rightarrow> Inl e
      | Inr hx \<Rightarrow>
          (case hashmapInterfaceHash ext (RStruct xs) sd of
             Inl e \<Rightarrow> Inl e
           | Inr hxs \<Rightarrow> Inr (hx XOR hxs)))"
| "hashmapInterfaceHash ext ROther sd = Inl UncomparablePanic"

text \<open>The hash functions behind the pointer stored in the table.\<close>

definition hashmapInterfacePtrHash ::
  "externals \<Rightarrow> bytes \<Rightarrow> uintptr \<Rightarrow> uintptr \<Rightarrow> fault + u32" where
  "hashmapInterfacePtrHash ext iptr n sd = hashmapInterfaceHash ext (reflectValueOf ext iptr) sd"

definition hashmapStringPtrHash :: "externals \<Rightarrow> bytes \<Rightarrow> uintptr \<Rightarrow> uintptr \<Rightarrow> u32" where
  "hashmapStringPtrHash ext sptr n sd =
     hash32 ext (stringContents ext sptr) (of_nat (length (stringContents ext sptr))) sd"

definition hashmapKeyHashAlg ::
  "externals \<Rightarrow> hashmapAlgorithm \<Rightarrow> bytes \<Rightarrow> uintptr \<Rightarrow> uintptr \<Rightarrow> fault + u32" where
  "hashmapKeyHashAlg ext alg =
     (case alg of
        hashmapAlgorithmBinary \<Rightarrow> (\<lambda>key n sd. Inr (hash32 ext key n sd))
      | hashmapAlgorithmString \<Rightarrow> (\<lambda>key n sd. Inr (hashmapStringPtrHash ext key n sd))
      | hashmapAlgorithmInterface \<Rightarrow> hashmapInterfacePtrHash ext)"

section \<open>make, len, clear\<close>

definition hashmapMake ::
  "externals \<Rightarrow> uintptr \<Rightarrow> uintptr \<Rightarrow> uintptr \<Rightarrow> hashmapAlgorithm \<Rightarrow> memory
     \<Rightarrow> hashmap \<times> memory" where
  "hashmapMake ext ks vs sizeHint alg h =
     (let bits = hashmapMakeBits sizeHint 0;
          (a, h1) = allocBuckets ks vs
                      (bucketBufSize ks vs * push_bit (unat bits) (1 :: uintptr)) h;
          (r, h2) = fastrand h1
      in (\<lparr>buckets = a, seed = ucast r, count = 0, keySize = ks, valueSize = vs,
           bucketBits = bits,
           keyEqual = hashmapKeyEqualAlg ext alg,
           keyHash = hashmapKeyHashAlg ext alg\<rparr>, h2))"

definition hashmapLen :: "hashmap option \<Rightarrow> int" where
  "hashmapLen m = (case m of None \<Rightarrow> 0 | Some m \<Rightarrow> sint (count m))"

text \<open>Clearing one bucket: the tophash array and the whole key/value region.\<close>

definition clearBucket :: "hashmap \<Rightarrow> hashmapBucket \<Rightarrow> hashmapBucket" where
  "clearBucket m b =
     b\<lparr>tophash := replicate 8 0,
       keys := replicate 8 (replicate (unat (keySize m)) 0),
       vals := replicate 8 (replicate (unat (valueSize m)) 0)\<rparr>"

text \<open>
  The outer loop of hashmapClear, \<open>i\<close> running up to \<open>numBuckets\<close>; the inner loop
  walks the chain. A bucket index beyond the allocation is outside the memory the
  table owns; the model leaves the array as it is there.
\<close>

function hashmapClearLoop :: "hashmap \<Rightarrow> uintptr \<Rightarrow> uintptr \<Rightarrow> chain list \<Rightarrow> chain list" where
  "hashmapClearLoop m i n arr =
     (if i < n
      then hashmapClearLoop m (i + 1) n
             (if unat i < length arr then arr[unat i := map (clearBucket m) (arr ! unat i)]
              else arr)
      else arr)"
  by pat_completeness auto
termination
proof (relation "measure (\<lambda>(m, i, n, arr). unat n - unat i)")
  show "wf (measure (\<lambda>(m :: hashmap, i :: uintptr, n :: uintptr, arr :: chain list).
    unat n - unat i))" by simp
next
  fix m :: hashmap and i n :: uintptr and arr :: "chain list"
  assume lt: "i < n"
  then have "unat i < unat n" by (simp add: word_less_nat_alt)
  moreover have "unat n < 2 ^ 64" using unsigned_less [of n] by simp
  ultimately have "unat (i + 1) = unat i + 1" by (simp add: unat_word_ariths)
  moreover note \<open>unat i < unat n\<close>
  ultimately show "((m, i + 1, n,
      if unat i < length arr then arr[unat i := map (clearBucket m) (arr ! unat i)] else arr),
      (m, i, n, arr)) \<in> measure (\<lambda>(m, i, n, arr). unat n - unat i)"
    by simp
qed

definition hashmapClear :: "hashmap option \<Rightarrow> memory \<Rightarrow> hashmap option \<times> memory" where
  "hashmapClear mo h =
     (case mo of
        None \<Rightarrow> (None, h)
      | Some m \<Rightarrow>
          (let m1 = m\<lparr>count := 0\<rparr>;
               numB = push_bit (unat (bucketBits m1)) (1 :: uintptr)
           in (Some m1,
               h\<lparr>arrays := (arrays h)(buckets m1 :=
                    hashmapClearLoop m1 0 numB (arrays h (buckets m1)))\<rparr>)))"

section \<open>Bucket addressing\<close>

text \<open>
  \<open>hashmapBucketAddrForHash\<close> is the index of the home bucket in the primary array:
  the low \<open>bucketBits\<close> bits of the hash. \<open>chainAt\<close> reads the chain that starts at a
  primary bucket, \<open>bucketAt\<close> dereferences a bucket pointer, \<open>bucketNext\<close> reads its
  \<open>next\<close> field.
\<close>

definition hashmapBucketAddrForHash :: "hashmap \<Rightarrow> u32 \<Rightarrow> nat" where
  "hashmapBucketAddrForHash m hash =
     (let numB = push_bit (unat (bucketBits m)) (1 :: uintptr)
      in unat ((ucast hash :: uintptr) AND (numB - 1)))"

definition chainAt :: "memory \<Rightarrow> nat \<Rightarrow> nat \<Rightarrow> chain" where
  "chainAt h a n = arrays h a ! n"

definition bucketAt :: "memory \<Rightarrow> nat \<Rightarrow> nat \<times> nat \<Rightarrow> hashmapBucket" where
  "bucketAt h a p = chainAt h a (fst p) ! snd p"

definition bucketNext :: "memory \<Rightarrow> nat \<Rightarrow> nat \<times> nat \<Rightarrow> (nat \<times> nat) option" where
  "bucketNext h a p =
     (if snd p + 1 < length (chainAt h a (fst p)) then Some (fst p, snd p + 1) else None)"

definition storeChain :: "memory \<Rightarrow> nat \<Rightarrow> nat \<Rightarrow> chain \<Rightarrow> memory" where
  "storeChain h a n ch = h\<lparr>arrays := (arrays h)(a := (arrays h a)[n := ch])\<rparr>"

section \<open>Lookup and deletion\<close>

text \<open>
  The walk of hashmapGet and hashmapDelete: the slots of a bucket in index order, the
  buckets of the chain in order; the result is the first slot whose tophash is the
  query's and whose key the table's equality accepts, as (position in chain, slot).
\<close>

fun lookupSlots :: "hashmap \<Rightarrow> bytes \<Rightarrow> u8 \<Rightarrow> hashmapBucket \<Rightarrow> nat list \<Rightarrow> nat option" where
  "lookupSlots m key th b [] = None"
| "lookupSlots m key th b (i # is) =
     (if tophash b ! i = th \<and> keyEqual m key (keys b ! i) (keySize m) then Some i
      else lookupSlots m key th b is)"

fun lookupChain :: "hashmap \<Rightarrow> bytes \<Rightarrow> u8 \<Rightarrow> chain \<Rightarrow> (nat \<times> nat) option" where
  "lookupChain m key th [] = None"
| "lookupChain m key th (b # bs) =
     (case lookupSlots m key th b [0..<8] of
        Some i \<Rightarrow> Some (0, i)
      | None \<Rightarrow> map_option (\<lambda>(p, i). (Suc p, i)) (lookupChain m key th bs))"

definition hashmapGet ::
  "hashmap option \<Rightarrow> bytes \<Rightarrow> bytes \<Rightarrow> uintptr \<Rightarrow> u32 \<Rightarrow> memory \<Rightarrow> bytes \<times> bool" where
  "hashmapGet mo key value valueSz hash h =
     (case mo of
        None \<Rightarrow> (memzero value valueSz, False)
      | Some m \<Rightarrow>
          (let th = hashmapTopHash hash;
               ch = chainAt h (buckets m) (hashmapBucketAddrForHash m hash)
           in case lookupChain m key th ch of
                Some (p, i) \<Rightarrow> (memcpy value (vals (ch ! p) ! i) (valueSize m), True)
              | None \<Rightarrow> (memzero value (valueSize m), False)))"

definition deleteSlot :: "hashmap \<Rightarrow> hashmapBucket \<Rightarrow> nat \<Rightarrow> hashmapBucket" where
  "deleteSlot m b i =
     b\<lparr>tophash := (tophash b)[i := 0],
       keys := (keys b)[i := memzero (keys b ! i) (keySize m)],
       vals := (vals b)[i := memzero (vals b ! i) (valueSize m)]\<rparr>"

definition hashmapDelete :: "hashmap option \<Rightarrow> bytes \<Rightarrow> u32 \<Rightarrow> memory \<Rightarrow> hashmap option \<times> memory" where
  "hashmapDelete mo key hash h =
     (case mo of
        None \<Rightarrow> (None, h)
      | Some m \<Rightarrow>
          (let th = hashmapTopHash hash;
               n = hashmapBucketAddrForHash m hash;
               ch = chainAt h (buckets m) n
           in case lookupChain m key th ch of
                Some (p, i) \<Rightarrow>
                  (Some (m\<lparr>count := count m - 1\<rparr>),
                   storeChain h (buckets m) n (ch[p := deleteSlot m (ch ! p) i]))
              | None \<Rightarrow> (Some m, h)))"

section \<open>Iteration\<close>

text \<open>
  The head of the loop body of hashmapNext: past the eighth slot move to the next
  bucket of the chain; with no current bucket take the next primary bucket, or report
  the end. The result is a fault (\<open>it.bucket.next\<close> on a nil bucket), or whether the
  snapshot is exhausted, with the iterator.
\<close>

definition hashmapNextAdvance ::
  "memory \<Rightarrow> nat \<Rightarrow> hashmapIterator \<Rightarrow> fault + (bool \<times> hashmapIterator)" where
  "hashmapNextAdvance h a it =
     (case (if bucketIndex it \<ge> 8
            then (case bucket it of
                    None \<Rightarrow> Inl NilPointerDeref
                  | Some p \<Rightarrow> Inr (it\<lparr>bucketIndex := 0, bucket := bucketNext h a p\<rparr>))
            else Inr it) of
        Inl e \<Rightarrow> Inl e
      | Inr it1 \<Rightarrow>
          (case bucket it1 of
             Some p \<Rightarrow> Inr (False, it1)
           | None \<Rightarrow>
               if bucketNumber it1 \<ge> numBuckets it1 then Inr (True, it1)
               else Inr (False, it1\<lparr>bucket := Some (unat (bucketNumber it1), 0),
                                      bucketNumber := bucketNumber it1 + 1\<rparr>)))"

text \<open>What is left to visit, for the termination of the loop.\<close>

definition nextMeasure :: "memory \<Rightarrow> nat \<Rightarrow> hashmapIterator \<Rightarrow> nat \<times> nat" where
  "nextMeasure h a it =
     (unat (numBuckets it) - unat (bucketNumber it),
      (case bucket it of
         None \<Rightarrow> 0
       | Some p \<Rightarrow> 9 * (length (chainAt h a (fst p)) - snd p) + 9 - min 9 (unat (bucketIndex it))))"

function hashmapNextLoop ::
  "hashmap \<Rightarrow> nat \<Rightarrow> hashmapIterator \<Rightarrow> bytes \<Rightarrow> bytes \<Rightarrow> memory
     \<Rightarrow> fault + (bool \<times> hashmapIterator \<times> bytes \<times> bytes)" where
  "hashmapNextLoop m a it key value h =
     (case hashmapNextAdvance h a it of
        Inl e \<Rightarrow> Inl e
      | Inr (True, it1) \<Rightarrow> Inr (False, it1, key, value)
      | Inr (False, it2) \<Rightarrow>
          (case bucket it2 of
             None \<Rightarrow> Inl NilPointerDeref
           | Some p \<Rightarrow>
               if tophash (bucketAt h a p) ! unat (bucketIndex it2) = 0
               then hashmapNextLoop m a (it2\<lparr>bucketIndex := bucketIndex it2 + 1\<rparr>) key value h
               else
                 (let key1 = memcpy key (keys (bucketAt h a p) ! unat (bucketIndex it2)) (keySize m)
                  in if a = buckets m
                     then Inr (True, it2\<lparr>bucketIndex := bucketIndex it2 + 1\<rparr>, key1,
                               memcpy value (vals (bucketAt h a p) ! unat (bucketIndex it2))
                                 (valueSize m))
                     else
                       (case keyHash m key1 (keySize m) (seed m) of
                          Inl e \<Rightarrow> Inl e
                        | Inr hash \<Rightarrow>
                            (case hashmapGet (Some m) key1 value (valueSize m) hash h of
                               (value1, ok) \<Rightarrow>
                                 if \<not> ok
                                 then hashmapNextLoop m a
                                        (it2\<lparr>bucketIndex := bucketIndex it2 + 1\<rparr>) key1 value1 h
                                 else Inr (True, it2\<lparr>bucketIndex := bucketIndex it2 + 1\<rparr>,
                                           key1, value1))))))"
  by pat_completeness auto

lemma unat_succ_lt: "(i::64 word) < n \<Longrightarrow> unat (i + 1) = unat i + 1"
proof -
  assume "i < n"
  then have a: "unat i < unat n" by (simp add: word_less_nat_alt)
  have "unat n < 2 ^ 64" using unsigned_less [of n] by simp
  with a show ?thesis by (simp add: unat_word_ariths)
qed

lemma unat_succ_u8: "\<not> (8 :: 8 word) \<le> i \<Longrightarrow> unat (i + 1) = unat i + 1 \<and> unat i < 8"
  by (simp add: word_le_nat_alt unat_word_ariths)

lemma advance_decreases:
  assumes "hashmapNextAdvance h a it = Inr (False, it2)"
  shows "(nextMeasure h a (it2\<lparr>bucketIndex := bucketIndex it2 + 1\<rparr>), nextMeasure h a it)
           \<in> less_than <*lex*> less_than"
proof (cases "8 \<le> bucketIndex it")
  case True
  then have u: "8 \<le> unat (bucketIndex it)" by (simp add: word_le_nat_alt)
  from True assms obtain p where p: "bucket it = Some p"
    by (auto simp: hashmapNextAdvance_def split: option.splits)
  show ?thesis
  proof (cases "bucketNext h a p")
    case None
    with True p assms have lt: "bucketNumber it < numBuckets it"
      and it2: "it2 = it\<lparr>bucketIndex := 0, bucket := Some (unat (bucketNumber it), 0),
                  bucketNumber := bucketNumber it + 1\<rparr>"
      by (auto simp: hashmapNextAdvance_def split: if_splits)
    from lt have "unat (bucketNumber it) < unat (numBuckets it)" by (simp add: word_less_nat_alt)
    with unat_succ_lt [OF lt] show ?thesis by (auto simp add: it2 nextMeasure_def)
  next
    case (Some q)
    with True p assms have it2: "it2 = it\<lparr>bucketIndex := 0, bucket := Some q\<rparr>"
      by (auto simp: hashmapNextAdvance_def split: if_splits)
    from Some have q: "q = (fst p, snd p + 1)" "snd p + 1 < length (chainAt h a (fst p))"
      by (auto simp: bucketNext_def split: if_splits)
    show ?thesis using u q by (simp add: it2 nextMeasure_def p)
  qed
next
  case False
  note s = unat_succ_u8 [OF False]
  show ?thesis
  proof (cases "bucket it")
    case None
    with False assms have lt: "bucketNumber it < numBuckets it"
      and it2: "it2 = it\<lparr>bucket := Some (unat (bucketNumber it), 0),
                  bucketNumber := bucketNumber it + 1\<rparr>"
      by (auto simp: hashmapNextAdvance_def split: if_splits)
    from lt have "unat (bucketNumber it) < unat (numBuckets it)" by (simp add: word_less_nat_alt)
    with unat_succ_lt [OF lt] show ?thesis by (auto simp add: it2 nextMeasure_def)
  next
    case (Some p)
    with False assms have it2: "it2 = it"
      by (auto simp: hashmapNextAdvance_def split: if_splits)
    show ?thesis using s by (auto simp add: it2 nextMeasure_def Some)
  qed
qed

termination hashmapNextLoop
proof (relation "inv_image (less_than <*lex*> less_than) (\<lambda>(m, a, it, key, value, h). nextMeasure h a it)")
  show "wf (inv_image (less_than <*lex*> less_than)
    (\<lambda>(m :: hashmap, a, it, key :: bytes, value :: bytes, h). nextMeasure h a it))"
    by (intro wf_inv_image wf_lex_prod wf_less_than)
qed (auto dest: advance_decreases)

definition hashmapNext ::
  "hashmap option \<Rightarrow> hashmapIterator \<Rightarrow> bytes \<Rightarrow> bytes \<Rightarrow> memory
     \<Rightarrow> fault + (bool \<times> hashmapIterator \<times> bytes \<times> bytes)" where
  "hashmapNext mo it key value h =
     (case mo of
        None \<Rightarrow> Inr (False, it, key, value)
      | Some m \<Rightarrow>
          (case buckets_it it of
             None \<Rightarrow>
               hashmapNextLoop m (buckets m)
                 (it\<lparr>buckets_it := Some (buckets m),
                     numBuckets := push_bit (unat (bucketBits m)) 1\<rparr>) key value h
           | Some a \<Rightarrow> hashmapNextLoop m a it key value h))"

section \<open>Insertion and growth\<close>

text \<open>
  The scan of hashmapSet over the home chain. \<open>e\<close> is the first empty slot seen so far
  (emptySlotKey, emptySlotValue and emptySlotTophash of the source point into it). The
  result is \<open>Inl\<close> the slot holding the key, or \<open>Inr\<close> the first empty slot, if any.
\<close>

fun setSlots ::
  "hashmap \<Rightarrow> bytes \<Rightarrow> u8 \<Rightarrow> nat \<Rightarrow> hashmapBucket \<Rightarrow> (nat \<times> nat) option \<Rightarrow> nat list
     \<Rightarrow> (nat \<times> nat) + (nat \<times> nat) option" where
  "setSlots m key th p b e [] = Inr e"
| "setSlots m key th p b e (i # is) =
     (let e1 = (if tophash b ! i = 0 \<and> e = None then Some (p, i) else e)
      in if tophash b ! i = th \<and> keyEqual m key (keys b ! i) (keySize m) then Inl (p, i)
         else setSlots m key th p b e1 is)"

fun setChain ::
  "hashmap \<Rightarrow> bytes \<Rightarrow> u8 \<Rightarrow> nat \<Rightarrow> (nat \<times> nat) option \<Rightarrow> chain
     \<Rightarrow> (nat \<times> nat) + (nat \<times> nat) option" where
  "setChain m key th p e [] = Inr e"
| "setChain m key th p e (b # bs) =
     (case setSlots m key th p b e [0..<8] of
        Inl f \<Rightarrow> Inl f
      | Inr e1 \<Rightarrow> setChain m key th (Suc p) e1 bs)"

definition fillSlot :: "hashmap \<Rightarrow> hashmapBucket \<Rightarrow> nat \<Rightarrow> bytes \<Rightarrow> bytes \<Rightarrow> u8 \<Rightarrow> hashmapBucket" where
  "fillSlot m b i key value th =
     b\<lparr>keys := (keys b)[i := memcpy (keys b ! i) key (keySize m)],
       vals := (vals b)[i := memcpy (vals b ! i) value (valueSize m)],
       tophash := (tophash b)[i := th]\<rparr>"

text \<open>hashmapInsertIntoNewBucket: a fresh zeroed bucket with the entry in slot 0.\<close>

definition hashmapInsertIntoNewBucket ::
  "hashmap \<Rightarrow> bytes \<Rightarrow> bytes \<Rightarrow> u8 \<Rightarrow> hashmap \<times> hashmapBucket" where
  "hashmapInsertIntoNewBucket m key value th =
     (m\<lparr>count := count m + 1\<rparr>,
      fillSlot m (zeroBucket (keySize m) (valueSize m)) 0 key value th)"

text \<open>hashmapSet after its growth check: lines 228 to 268 of the source.\<close>

definition hashmapSetInsert ::
  "hashmap \<Rightarrow> bytes \<Rightarrow> bytes \<Rightarrow> u32 \<Rightarrow> memory \<Rightarrow> hashmap \<times> memory" where
  "hashmapSetInsert m key value hash h =
     (let th = hashmapTopHash hash;
          n = hashmapBucketAddrForHash m hash;
          ch = chainAt h (buckets m) n
      in case setChain m key th 0 None ch of
           Inl (p, i) \<Rightarrow>
             (m, storeChain h (buckets m) n
                   (ch[p := (ch ! p)\<lparr>vals := (vals (ch ! p))
                      [i := memcpy (vals (ch ! p) ! i) value (valueSize m)]\<rparr>]))
         | Inr None \<Rightarrow>
             (case hashmapInsertIntoNewBucket m key value th of
                (m1, nb) \<Rightarrow> (m1, storeChain h (buckets m) n (ch @ [nb])))
         | Inr (Some (p, i)) \<Rightarrow>
             (m\<lparr>count := count m + 1\<rparr>,
              storeChain h (buckets m) n (ch[p := fillSlot m (ch ! p) i key value th])))"

text \<open>
  hashmapSet and hashmapGrow call each other, and the loop of hashmapGrow runs over
  memory that hashmapSet writes. The three functions carry a budget of calls: with the
  budget spent the result is \<open>OutOfFuel\<close>, which is no behaviour of the program.
\<close>

fun hashmapSet ::
    "nat \<Rightarrow> hashmap \<Rightarrow> bytes \<Rightarrow> bytes \<Rightarrow> u32 \<Rightarrow> memory \<Rightarrow> fault + (hashmap \<times> memory)"
  and hashmapGrow :: "nat \<Rightarrow> hashmap \<Rightarrow> memory \<Rightarrow> fault + (hashmap \<times> memory)"
  and hashmapGrowLoop ::
    "nat \<Rightarrow> hashmap \<Rightarrow> hashmapIterator \<Rightarrow> bytes \<Rightarrow> bytes \<Rightarrow> hashmap \<Rightarrow> memory
       \<Rightarrow> fault + (hashmap \<times> memory)" where
  "hashmapSet fuel m key value hash h =
     (if hashmapHasSpaceToGrow (bucketBits m) \<and> hashmapOverLoadFactor (count m) (bucketBits m)
      then (case fuel of
              0 \<Rightarrow> Inl OutOfFuel
            | Suc fuel1 \<Rightarrow>
                (case hashmapGrow fuel1 m h of
                   Inl e \<Rightarrow> Inl e
                 | Inr (m1, h1) \<Rightarrow>
                     (case keyHash m1 key (keySize m1) (seed m1) of
                        Inl e \<Rightarrow> Inl e
                      | Inr hash1 \<Rightarrow> Inr (hashmapSetInsert m1 key value hash1 h1))))
      else Inr (hashmapSetInsert m key value hash h))"
| "hashmapGrow fuel m h =
     (case fastrand h of
        (r, h1) \<Rightarrow>
          (case allocBuckets (keySize m) (valueSize m)
                  (bucketBufSize (keySize m) (valueSize m)
                     * push_bit (unat (bucketBits m + 1)) (1 :: uintptr)) h1 of
             (a, h2) \<Rightarrow>
               hashmapGrowLoop fuel m hashmapNewIterator
                 (replicate (unat (keySize m)) 0) (replicate (unat (valueSize m)) 0)
                 (m\<lparr>count := 0, seed := ucast r, bucketBits := bucketBits m + 1,
                    buckets := a\<rparr>) h2))"
| "hashmapGrowLoop fuel m it key value n h =
     (case fuel of
        0 \<Rightarrow> Inl OutOfFuel
      | Suc fuel1 \<Rightarrow>
          (case hashmapNext (Some m) it key value h of
             Inl e \<Rightarrow> Inl e
           | Inr (False, it1, key1, value1) \<Rightarrow> Inr (n, h)
           | Inr (True, it1, key1, value1) \<Rightarrow>
               (case keyHash n key1 (keySize n) (seed n) of
                  Inl e \<Rightarrow> Inl e
                | Inr hash \<Rightarrow>
                    (case hashmapSet fuel1 n key1 value1 hash h of
                       Inl e \<Rightarrow> Inl e
                     | Inr (n1, h1) \<Rightarrow> hashmapGrowLoop fuel1 m it1 key1 value1 n1 h1))))"

declare hashmapSet.simps [simp del] hashmapGrow.simps [simp del] hashmapGrowLoop.simps [simp del]
declare hashmapNextLoop.simps [simp del] hashmapMakeBits.simps [simp del]
declare hashmapClearLoop.simps [simp del]

text \<open>
  The entry point that takes the table as a pointer: hashmapSet reads \<open>m.bucketBits\<close>
  first, with no nil check of its own.
\<close>

definition hashmapSetUnsafePointer ::
  "nat \<Rightarrow> hashmap option \<Rightarrow> bytes \<Rightarrow> bytes \<Rightarrow> u32 \<Rightarrow> memory \<Rightarrow> fault + (hashmap \<times> memory)" where
  "hashmapSetUnsafePointer fuel mo key value hash h =
     (case mo of
        None \<Rightarrow> Inl NilPointerDeref
      | Some m \<Rightarrow> hashmapSet fuel m key value hash h)"

section \<open>The three key disciplines\<close>

definition hashmapBinarySet ::
  "externals \<Rightarrow> nat \<Rightarrow> hashmap option \<Rightarrow> bytes \<Rightarrow> bytes \<Rightarrow> memory
     \<Rightarrow> fault + (hashmap \<times> memory)" where
  "hashmapBinarySet ext fuel mo key value h =
     (case mo of
        None \<Rightarrow> Inl NilMapPanic
      | Some m \<Rightarrow> hashmapSet fuel m key value (hash32 ext key (keySize m) (seed m)) h)"

definition hashmapBinaryGet ::
  "externals \<Rightarrow> hashmap option \<Rightarrow> bytes \<Rightarrow> bytes \<Rightarrow> uintptr \<Rightarrow> memory \<Rightarrow> bytes \<times> bool" where
  "hashmapBinaryGet ext mo key value valueSz h =
     (case mo of
        None \<Rightarrow> (memzero value valueSz, False)
      | Some m \<Rightarrow>
          hashmapGet (Some m) key value valueSz (hash32 ext key (keySize m) (seed m)) h)"

definition hashmapBinaryDelete ::
  "externals \<Rightarrow> hashmap option \<Rightarrow> bytes \<Rightarrow> memory \<Rightarrow> hashmap option \<times> memory" where
  "hashmapBinaryDelete ext mo key h =
     (case mo of
        None \<Rightarrow> (None, h)
      | Some m \<Rightarrow> hashmapDelete (Some m) key (hash32 ext key (keySize m) (seed m)) h)"

text \<open>String keys: the key cell is the string header, hashed by its contents.\<close>

definition hashmapStringSet ::
  "externals \<Rightarrow> nat \<Rightarrow> hashmap option \<Rightarrow> bytes \<Rightarrow> bytes \<Rightarrow> memory
     \<Rightarrow> fault + (hashmap \<times> memory)" where
  "hashmapStringSet ext fuel mo key value h =
     (case mo of
        None \<Rightarrow> Inl NilMapPanic
      | Some m \<Rightarrow>
          hashmapSet fuel m key value (hashmapStringHash ext (stringContents ext key) (seed m)) h)"

definition hashmapStringGet ::
  "externals \<Rightarrow> hashmap option \<Rightarrow> bytes \<Rightarrow> bytes \<Rightarrow> uintptr \<Rightarrow> memory \<Rightarrow> bytes \<times> bool" where
  "hashmapStringGet ext mo key value valueSz h =
     (case mo of
        None \<Rightarrow> (memzero value valueSz, False)
      | Some m \<Rightarrow>
          hashmapGet (Some m) key value valueSz
            (hashmapStringHash ext (stringContents ext key) (seed m)) h)"

definition hashmapStringDelete ::
  "externals \<Rightarrow> hashmap option \<Rightarrow> bytes \<Rightarrow> memory \<Rightarrow> hashmap option \<times> memory" where
  "hashmapStringDelete ext mo key h =
     (case mo of
        None \<Rightarrow> (None, h)
      | Some m \<Rightarrow>
          hashmapDelete (Some m) key (hashmapStringHash ext (stringContents ext key) (seed m)) h)"

text \<open>Interface keys: the key cell is the interface value, hashed structurally.\<close>

definition hashmapInterfaceSet ::
  "externals \<Rightarrow> nat \<Rightarrow> hashmap option \<Rightarrow> bytes \<Rightarrow> bytes \<Rightarrow> memory
     \<Rightarrow> fault + (hashmap \<times> memory)" where
  "hashmapInterfaceSet ext fuel mo key value h =
     (case mo of
        None \<Rightarrow> Inl NilMapPanic
      | Some m \<Rightarrow>
          (case hashmapInterfaceHash ext (reflectValueOf ext key) (seed m) of
             Inl e \<Rightarrow> Inl e
           | Inr hash \<Rightarrow> hashmapSet fuel m key value hash h))"

definition hashmapInterfaceGet ::
  "externals \<Rightarrow> hashmap option \<Rightarrow> bytes \<Rightarrow> bytes \<Rightarrow> uintptr \<Rightarrow> memory
     \<Rightarrow> fault + (bytes \<times> bool)" where
  "hashmapInterfaceGet ext mo key value valueSz h =
     (case mo of
        None \<Rightarrow> Inr (memzero value valueSz, False)
      | Some m \<Rightarrow>
          (case hashmapInterfaceHash ext (reflectValueOf ext key) (seed m) of
             Inl e \<Rightarrow> Inl e
           | Inr hash \<Rightarrow> Inr (hashmapGet (Some m) key value valueSz hash h)))"

definition hashmapInterfaceDelete ::
  "externals \<Rightarrow> hashmap option \<Rightarrow> bytes \<Rightarrow> memory \<Rightarrow> fault + (hashmap option \<times> memory)" where
  "hashmapInterfaceDelete ext mo key h =
     (case mo of
        None \<Rightarrow> Inr (None, h)
      | Some m \<Rightarrow>
          (case hashmapInterfaceHash ext (reflectValueOf ext key) (seed m) of
             Inl e \<Rightarrow> Inl e
           | Inr hash \<Rightarrow> Inr (hashmapDelete (Some m) key hash h)))"

section \<open>Sizing\<close>

lemma keyHashAlg_binary [simp]:
  "hashmapKeyHashAlg ext hashmapAlgorithmBinary key n sd = Inr (hash32 ext key n sd)"
  by (simp add: hashmapKeyHashAlg_def)

lemma keyHashAlg_string [simp]:
  "hashmapKeyHashAlg ext hashmapAlgorithmString key n sd
     = Inr (hashmapStringPtrHash ext key n sd)"
  by (simp add: hashmapKeyHashAlg_def)

lemma keyHashAlg_interface [simp]:
  "hashmapKeyHashAlg ext hashmapAlgorithmInterface key n sd
     = hashmapInterfaceHash ext (reflectValueOf ext key) sd"
  by (simp add: hashmapKeyHashAlg_def hashmapInterfacePtrHash_def)

lemma hasSpace_iff: "hashmapHasSpaceToGrow b \<longleftrightarrow> unat b \<le> 61"
  by (simp add: hashmapHasSpaceToGrow_def word_le_nat_alt)

lemma unat_push_bit_6: "n \<le> 61 \<Longrightarrow> unat (push_bit n (6 :: uintptr)) = 6 * 2 ^ n"
proof -
  assume n: "n \<le> 61"
  have "(6::nat) * 2 ^ n \<le> 6 * 2 ^ 61" using power_increasing [of n 61 "2::nat"] n by simp
  also have "\<dots> < 2 ^ 64" by simp
  finally have lt: "(6::nat) * 2 ^ n < 2 ^ 64" .
  have "unat (push_bit n (6 :: uintptr)) = take_bit 64 (push_bit n (6::nat))"
    by (simp add: unsigned_push_bit_eq)
  also have "\<dots> = push_bit n (6::nat)"
    using lt by (simp add: take_bit_nat_eq_self push_bit_eq_mult mult.commute)
  finally show ?thesis by (simp add: push_bit_eq_mult mult.commute)
qed

lemma unat_push_bit_1: "n < 64 \<Longrightarrow> unat (push_bit n (1 :: uintptr)) = 2 ^ n"
proof -
  assume n: "n < 64"
  have lt: "(2::nat) ^ n < 2 ^ 64" using power_strict_increasing [of n 64 "2::nat"] n by simp
  have "(push_bit n (1 :: uintptr)) = of_nat (2 ^ n)" by simp
  then have "unat (push_bit n (1 :: uintptr)) = 2 ^ n mod 2 ^ 64"
    by (simp only: unat_of_nat) simp
  with lt show ?thesis by simp
qed

lemma overLoad_iff: "unat b \<le> 61 \<Longrightarrow> hashmapOverLoadFactor n b \<longleftrightarrow> 6 * 2 ^ unat b < unat n"
  by (simp add: hashmapOverLoadFactor_def word_less_nat_alt unat_push_bit_6)

lemma makeBits_spec:
  "unat b0 \<le> 62 \<Longrightarrow>
   unat b0 \<le> unat (hashmapMakeBits s b0) \<and> unat (hashmapMakeBits s b0) \<le> 62 \<and>
   (61 < unat (hashmapMakeBits s b0) \<or> unat s \<le> 6 * 2 ^ unat (hashmapMakeBits s b0)) \<and>
   (\<forall>b. unat b0 \<le> b \<and> b < unat (hashmapMakeBits s b0) \<longrightarrow> b \<le> 61 \<and> 6 * 2 ^ b < unat s)"
proof (induction s b0 rule: hashmapMakeBits.induct)
  case (1 s b)
  show ?case
  proof (cases "hashmapHasSpaceToGrow b \<and> hashmapOverLoadFactor s b")
    case True
    then have b61: "unat b \<le> 61" by (simp add: hasSpace_iff)
    then have suc: "unat (b + 1) = unat b + 1" by (simp add: unat_word_ariths)
    have ov: "6 * 2 ^ unat b < unat s" using True b61 by (simp add: overLoad_iff)
    have eq: "hashmapMakeBits s b = hashmapMakeBits s (b + 1)"
      using True by (subst hashmapMakeBits.simps) simp
    have ih: "unat (b + 1) \<le> unat (hashmapMakeBits s (b + 1)) \<and>
      unat (hashmapMakeBits s (b + 1)) \<le> 62 \<and>
      (61 < unat (hashmapMakeBits s (b + 1)) \<or> unat s \<le> 6 * 2 ^ unat (hashmapMakeBits s (b + 1))) \<and>
      (\<forall>c. unat (b + 1) \<le> c \<and> c < unat (hashmapMakeBits s (b + 1)) \<longrightarrow> c \<le> 61 \<and> 6 * 2 ^ c < unat s)"
      using "1.IH" [OF True] b61 suc by simp
    show ?thesis
      unfolding eq using ih suc b61 ov
      by (metis Suc_eq_plus1 Suc_leD le_antisym not_less_eq_eq)
  next
    case False
    then have eq: "hashmapMakeBits s b = b"
      by (subst hashmapMakeBits.simps) auto
    show ?thesis
      using False "1.prems" unfolding eq
      by (cases "unat b \<le> 61") (auto simp: hasSpace_iff overLoad_iff)
  qed
qed

section \<open>Example environment for concrete runs\<close>

definition exampleExt :: externals where
  "exampleExt =
     \<lparr>hash32 = (\<lambda>b n s. foldr (\<lambda>x acc. ucast x + 31 * acc) (take (unat n) b) (ucast s)),
      stringContents = (\<lambda>b. b),
      reflectValueOf = (\<lambda>b. RInt b),
      interfaceEqual = (\<lambda>x y. x = y)\<rparr>"

definition exampleMemory :: memory where
  "exampleMemory = \<lparr>arrays = (\<lambda>a. []), nextAddr = 1, rand = (\<lambda>i. of_nat i), randPos = 0\<rparr>"

section \<open>Construction (hashmapMake)\<close>

text \<open>
  The byte size of an array of \<open>2 ^ b\<close> buckets fits into a \<open>uintptr\<close>: then the
  product the source computes is the true size, and the allocation holds all
  \<open>2 ^ b\<close> buckets.
\<close>

definition allocFits :: "uintptr \<Rightarrow> uintptr \<Rightarrow> nat \<Rightarrow> bool" where
  "allocFits ks vs b \<longleftrightarrow> (16 + 8 * unat ks + 8 * unat vs) * 2 ^ b < (2 :: nat) ^ 64"

lemma allocFits_size:
  assumes "allocFits ks vs b"
  shows "unat (bucketBufSize ks vs) = 16 + 8 * unat ks + 8 * unat vs"
    and "b < 64"
    and "unat (bucketBufSize ks vs * push_bit b (1 :: uintptr)) div unat (bucketBufSize ks vs)
           = 2 ^ b"
proof -
  define B where "B = 16 + 8 * unat ks + 8 * unat vs"
  from assms have fit: "B * 2 ^ b < (2 :: nat) ^ 64" by (simp add: allocFits_def B_def)
  have B16: "16 \<le> B" by (simp add: B_def)
  have "B \<le> B * 2 ^ b" by simp
  then have B: "B < 2 ^ 64" using fit by (rule le_less_trans)
  have "(2 :: nat) ^ b \<le> B * 2 ^ b" using B16 by (cases B) simp_all
  then have "(2 :: nat) ^ b < 2 ^ 64" using fit by (rule le_less_trans)
  then show b: "b < 64" using power_less_imp_less_exp [of "2 :: nat" b 64] by simp
  have k8: "unat (ks * 8) = 8 * unat ks"
    using B by (simp add: unat_word_ariths B_def)
  have v8: "unat (vs * 8) = 8 * unat vs"
    using B by (simp add: unat_word_ariths B_def)
  have "unat (16 + ks * 8) = 16 + 8 * unat ks"
    using B k8 by (simp add: unat_word_ariths B_def)
  then have "unat (16 + ks * 8 + vs * 8) = B"
    using B v8 by (simp add: unat_word_ariths B_def)
  then show sz: "unat (bucketBufSize ks vs) = 16 + 8 * unat ks + 8 * unat vs"
    by (simp add: bucketBufSize_def B_def)
  then have szB: "unat (bucketBufSize ks vs) = B" by (simp add: B_def)
  have pb: "unat (push_bit b (1 :: uintptr)) = 2 ^ b" using b by (rule unat_push_bit_1)
  have "unat (bucketBufSize ks vs * push_bit b (1 :: uintptr)) = B * 2 ^ b mod 2 ^ 64"
    by (simp only: unat_word_ariths szB pb) simp
  with fit have "unat (bucketBufSize ks vs * push_bit b (1 :: uintptr)) = B * 2 ^ b" by simp
  then show "unat (bucketBufSize ks vs * push_bit b (1 :: uintptr)) div unat (bucketBufSize ks vs)
           = 2 ^ b"
    using B16 by (simp add: szB)
qed

lemma makeBits_100: "hashmapMakeBits 100 0 = 5"
  by (simp add: hashmapMakeBits.simps hashmapHasSpaceToGrow_def hashmapOverLoadFactor_def)

text \<open>
  What hashmapMake returns: count 0, the sizes as given, a fresh address, and
  \<open>bucketBits\<close> the smallest number of bits that either is past the growth ceiling or
  whose load-factor threshold the size hint does not exceed. The array has as many
  zeroed buckets as fit into the byte size the source computes; when
  \<open>2 ^ bucketBits\<close> buckets fit into a \<open>uintptr\<close> byte size these are \<open>2 ^ bucketBits\<close>.
\<close>

lemma make_result:
  assumes mk: "hashmapMake ext ks vs sizeHint alg h = (m, h1)"
  shows "count m = 0 \<and> keySize m = ks \<and> valueSize m = vs \<and>
     buckets m = nextAddr h \<and> nextAddr h1 = nextAddr h + 1 \<and>
     arrays h1 (buckets m) =
       replicate (unat (bucketBufSize ks vs * push_bit (unat (bucketBits m)) (1 :: uintptr))
                    div unat (bucketBufSize ks vs)) [zeroBucket ks vs] \<and>
     (\<forall>a. a \<noteq> nextAddr h \<longrightarrow> arrays h1 a = arrays h a) \<and>
     unat (bucketBits m) \<le> 62 \<and>
     (\<not> hashmapHasSpaceToGrow (bucketBits m) \<or> unat sizeHint \<le> 6 * 2 ^ unat (bucketBits m)) \<and>
     (\<forall>b. unat b < unat (bucketBits m) \<longrightarrow>
        hashmapHasSpaceToGrow b \<and> 6 * 2 ^ unat b < unat sizeHint)"
proof -
  let ?b = "hashmapMakeBits sizeHint 0"
  have sp: "unat ?b \<le> 62 \<and>
    (61 < unat ?b \<or> unat sizeHint \<le> 6 * 2 ^ unat ?b) \<and>
    (\<forall>b. b < unat ?b \<longrightarrow> b \<le> 61 \<and> 6 * 2 ^ b < unat sizeHint)"
    using makeBits_spec [of 0 sizeHint] by simp
  from mk have m: "bucketBits m = ?b" "count m = 0" "keySize m = ks" "valueSize m = vs"
    "buckets m = nextAddr h" "nextAddr h1 = nextAddr h + 1"
    "arrays h1 (nextAddr h) =
       replicate (unat (bucketBufSize ks vs * push_bit (unat ?b) (1 :: uintptr))
                    div unat (bucketBufSize ks vs)) [zeroBucket ks vs]"
    "\<forall>a. a \<noteq> nextAddr h \<longrightarrow> arrays h1 a = arrays h a"
    by (auto simp: hashmapMake_def allocBuckets_def fastrand_def Let_def)
  show ?thesis
    using sp m by (auto simp: hasSpace_iff)
qed

lemma makeBits_max: "hashmapMakeBits 0xFFFFFFFFFFFFFFFF 0 = 62"
proof -
  let ?b = "hashmapMakeBits 0xFFFFFFFFFFFFFFFF 0"
  have sp: "unat ?b \<le> 62"
    "61 < unat ?b \<or> unat (0xFFFFFFFFFFFFFFFF :: uintptr) \<le> 6 * 2 ^ unat ?b"
    using makeBits_spec [of 0 "0xFFFFFFFFFFFFFFFF"] by simp_all
  have "61 < unat ?b"
  proof (rule ccontr)
    assume "\<not> 61 < unat ?b"
    then have le: "unat ?b \<le> 61" by simp
    then have "(2 :: nat) ^ unat ?b \<le> 2 ^ 61" by (intro power_increasing) simp_all
    then have "(6 :: nat) * 2 ^ unat ?b \<le> 6 * 2 ^ 61" by simp
    with sp(2) le show False by simp
  qed
  with sp(1) have "unat ?b = 62" by simp
  moreover have "?b = of_nat (unat ?b)" by simp
  ultimately have "?b = of_nat 62" by (simp only:)
  then show ?thesis by simp
qed

text \<open>
  C8, at the size hint \<open>2 ^ 64 - 1\<close> with one-byte keys and values: the loop of
  hashmapMake stops at 62 bits, the byte size \<open>32 * 2 ^ 62\<close> of the array wraps around
  to 0, and the table is returned over an allocation of no bucket at all, while its
  \<open>bucketBits\<close> addresses \<open>2 ^ 62\<close> of them.
\<close>

theorem make_size_wraps:
  "hashmapMake exampleExt 1 1 0xFFFFFFFFFFFFFFFF hashmapAlgorithmBinary exampleMemory =
     (\<lparr>buckets = 1, seed = 0, count = 0, keySize = 1, valueSize = 1, bucketBits = 62,
       keyEqual = memequal, keyHash = hashmapKeyHashAlg exampleExt hashmapAlgorithmBinary\<rparr>,
      \<lparr>arrays = (\<lambda>a. [])(1 := []), nextAddr = 2, rand = (\<lambda>i. of_nat i), randPos = 1\<rparr>) \<and>
   bucketBufSize 1 1 * push_bit 62 (1 :: uintptr) = 0"
  by (simp add: hashmapMake_def makeBits_max allocBuckets_def fastrand_def bucketBufSize_def
      exampleMemory_def hashmapKeyEqualAlg_def)

section \<open>Clear (hashmapClear)\<close>

lemma clearLoop_length: "length (hashmapClearLoop m i n arr) = length arr"
proof (induction m i n arr rule: hashmapClearLoop.induct)
  case (1 m i n arr)
  show ?case
  proof (cases "i < n")
    case True
    then show ?thesis using "1.IH" by (subst hashmapClearLoop.simps) simp
  next
    case False
    then show ?thesis by (subst hashmapClearLoop.simps) simp
  qed
qed

lemma clearLoop_nth:
  "j < length arr \<Longrightarrow>
   hashmapClearLoop m i n arr ! j =
     (if unat i \<le> j \<and> j < unat n then map (clearBucket m) (arr ! j) else arr ! j)"
proof (induction m i n arr rule: hashmapClearLoop.induct)
  case (1 m i n arr)
  show ?case
  proof (cases "i < n")
    case True
    then have lt: "unat i < unat n" by (simp add: word_less_nat_alt)
    have suc: "unat (i + 1) = unat i + 1" using True by (rule unat_succ_lt)
    let ?arr = "if unat i < length arr then arr[unat i := map (clearBucket m) (arr ! unat i)] else arr"
    have len: "j < length ?arr" using "1.prems" by simp
    have "hashmapClearLoop m i n arr ! j = hashmapClearLoop m (i + 1) n ?arr ! j"
      using True by (subst hashmapClearLoop.simps) simp
    also have "\<dots> = (if unat (i + 1) \<le> j \<and> j < unat n then map (clearBucket m) (?arr ! j) else ?arr ! j)"
      using "1.IH" [OF True len] .
    also have "\<dots> = (if unat i \<le> j \<and> j < unat n then map (clearBucket m) (arr ! j) else arr ! j)"
      using "1.prems" lt suc by (cases "j = unat i") (auto simp: nth_list_update)
    finally show ?thesis .
  next
    case False
    then have "\<not> unat i < unat n" by (simp add: word_less_nat_alt)
    then show ?thesis using False by (subst hashmapClearLoop.simps) auto
  qed
qed

lemma clearLoop_all:
  "hashmapClearLoop m 0 n arr = map (map (clearBucket m)) (take (unat n) arr) @ drop (unat n) arr"
  by (rule nth_equalityI) (auto simp: clearLoop_length clearLoop_nth nth_append)

lemma clearBucket_count [simp]: "clearBucket (m\<lparr>count := c\<rparr>) = clearBucket m"
  by (rule ext) (simp add: clearBucket_def)

text \<open>
  C7. hashmapClear on a nil table changes nothing. On a table \<open>m\<close> it sets \<open>count\<close> to
  zero and leaves every other field of the header (bucketBits, the primary bucket
  pointer, the seed, keySize, valueSize) as it was; in memory it changes the table's
  own array only, where every bucket of every chain of the \<open>1 << bucketBits\<close> primary
  buckets is cleared, the chains keeping their buckets. A cleared bucket has eight zero
  tophash bytes and an all-zero key/value region.
\<close>

theorem clear_resets_all_buckets:
  "hashmapClear None h = (None, h) \<and>
   hashmapClear (Some m) h =
     (Some (m\<lparr>count := 0\<rparr>),
      h\<lparr>arrays := (arrays h)(buckets m :=
           map (map (clearBucket m))
               (take (unat (push_bit (unat (bucketBits m)) (1 :: uintptr))) (arrays h (buckets m)))
           @ drop (unat (push_bit (unat (bucketBits m)) (1 :: uintptr))) (arrays h (buckets m)))\<rparr>) \<and>
   tophash (clearBucket m b) = replicate 8 0 \<and>
   keys (clearBucket m b) = replicate 8 (replicate (unat (keySize m)) 0) \<and>
   vals (clearBucket m b) = replicate 8 (replicate (unat (valueSize m)) 0)"
  by (simp add: hashmapClear_def clearLoop_all clearBucket_def Let_def)

section \<open>Operations on a nil table\<close>

text \<open>
  C2, as the code has it. On a nil table, for every key and value: get (generic and in
  each discipline) zeroes the first \<open>valueSize\<close> bytes of the output buffer and returns
  false, delete and clear return with nothing changed, len is 0 and next returns false
  with the iterator and buffers untouched; none of them faults. The set operations of
  the three disciplines, which check the table first, end in the nil-map panic. The
  generic hashmapSet behind hashmapSetUnsafePointer has no such check: it reads
  \<open>m.bucketBits\<close> and faults on the nil dereference, which is not the nil-map panic.
\<close>

theorem nil_table_operations:
  "hashmapGet None key value valueSz hash h
     = (replicate (unat valueSz) 0 @ drop (unat valueSz) value, False) \<and>
   hashmapBinaryGet ext None key value valueSz h
     = (replicate (unat valueSz) 0 @ drop (unat valueSz) value, False) \<and>
   hashmapStringGet ext None key value valueSz h
     = (replicate (unat valueSz) 0 @ drop (unat valueSz) value, False) \<and>
   hashmapInterfaceGet ext None key value valueSz h
     = Inr (replicate (unat valueSz) 0 @ drop (unat valueSz) value, False) \<and>
   hashmapDelete None key hash h = (None, h) \<and>
   hashmapBinaryDelete ext None key h = (None, h) \<and>
   hashmapStringDelete ext None key h = (None, h) \<and>
   hashmapInterfaceDelete ext None key h = Inr (None, h) \<and>
   hashmapLen None = 0 \<and>
   hashmapClear None h = (None, h) \<and>
   hashmapNext None it key value h = Inr (False, it, key, value) \<and>
   hashmapBinarySet ext fuel None key value h = Inl NilMapPanic \<and>
   hashmapStringSet ext fuel None key value h = Inl NilMapPanic \<and>
   hashmapInterfaceSet ext fuel None key value h = Inl NilMapPanic \<and>
   hashmapSetUnsafePointer fuel None key value hash h = Inl NilPointerDeref"
  by (simp add: hashmapGet_def hashmapBinaryGet_def hashmapStringGet_def hashmapInterfaceGet_def
      hashmapDelete_def hashmapBinaryDelete_def hashmapStringDelete_def
      hashmapInterfaceDelete_def hashmapLen_def hashmapClear_def hashmapNext_def
      hashmapBinarySet_def hashmapStringSet_def hashmapInterfaceSet_def
      hashmapSetUnsafePointer_def memzero_def)

text \<open>
  C2 as stated fails for the generic set: on the nil table, with key \<open>[1]\<close>, value
  \<open>[9]\<close> and hash 0, hashmapSetUnsafePointer ends in the nil dereference and not in
  the nil-map panic.
\<close>

theorem nil_generic_set_is_not_nil_map_panic:
  "hashmapSetUnsafePointer 2 None [1] [9] 0 exampleMemory = Inl NilPointerDeref \<and>
   hashmapSetUnsafePointer 2 None [1] [9] 0 exampleMemory \<noteq> Inl NilMapPanic"
  by (simp add: hashmapSetUnsafePointer_def)

section \<open>Negative zero in the structural hash\<close>

lemma float_hash_negative_zero:
  "hashmapFloat32Hash ext 0x80000000 sd = hashmapFloat32Hash ext 0 sd \<and>
   hashmapFloat64Hash ext 0x8000000000000000 sd = hashmapFloat64Hash ext 0 sd \<and>
   hashmapInterfaceHash ext (RFloat32 0x80000000) sd = hashmapInterfaceHash ext (RFloat32 0) sd \<and>
   hashmapInterfaceHash ext (RFloat64 0x8000000000000000) sd
     = hashmapInterfaceHash ext (RFloat64 0) sd"
  by (simp add: hashmapFloat32Hash_def hashmapFloat64Hash_def)

section \<open>Example tables\<close>

definition exampleTable :: "hashmap \<times> memory" where
  "exampleTable = hashmapMake exampleExt 1 1 0 hashmapAlgorithmBinary exampleMemory"

definition exampleTable1 :: "fault + (hashmap \<times> memory)" where
  "exampleTable1 =
     hashmapBinarySet exampleExt 2 (Some (fst exampleTable)) [1] [9] (snd exampleTable)"

lemma makeBits_0: "hashmapMakeBits 0 0 = 0"
  by (simp add: hashmapMakeBits.simps hashmapHasSpaceToGrow_def hashmapOverLoadFactor_def)

lemma upt8: "[0..<8] = [0,1,2,3,4,5,6,7]"
  by (simp add: upt_rec)

lemma exampleTable_eval:
  "exampleTable =
     (\<lparr>buckets = 1, seed = 0, count = 0, keySize = 1, valueSize = 1, bucketBits = 0,
       keyEqual = memequal, keyHash = hashmapKeyHashAlg exampleExt hashmapAlgorithmBinary\<rparr>,
      \<lparr>arrays = (\<lambda>a. [])(1 := [[zeroBucket 1 1]]), nextAddr = 2, rand = (\<lambda>i. of_nat i), randPos = 1\<rparr>)"
  by (simp add: exampleTable_def hashmapMake_def makeBits_0 allocBuckets_def fastrand_def
      exampleMemory_def hashmapKeyEqualAlg_def bucketBufSize_def)

lemma exampleTable1_eval:
  "exampleTable1 =
     Inr (\<lparr>buckets = 1, seed = 0, count = 1, keySize = 1, valueSize = 1, bucketBits = 0,
       keyEqual = memequal, keyHash = hashmapKeyHashAlg exampleExt hashmapAlgorithmBinary\<rparr>,
      \<lparr>arrays = (\<lambda>a. [])(1 := [[\<lparr>tophash = [1,0,0,0,0,0,0,0],
            keys = [[1],[0],[0],[0],[0],[0],[0],[0]],
            vals = [[9],[0],[0],[0],[0],[0],[0],[0]]\<rparr>]]),
        nextAddr = 2, rand = (\<lambda>i. of_nat i), randPos = 1\<rparr>)"
  by (simp add: exampleTable1_def exampleTable_eval hashmapBinarySet_def hashmapSet.simps
      hashmapHasSpaceToGrow_def hashmapOverLoadFactor_def hashmapSetInsert_def
      hashmapTopHash_def hashmapBucketAddrForHash_def chainAt_def storeChain_def
      exampleExt_def zeroBucket_def upt8 fillSlot_def memcpy_def memequal_def Let_def
      numeral_eq_Suc)

definition exampleGrown :: "fault + (hashmap \<times> memory)" where
  "exampleGrown = (case exampleTable1 of Inl e \<Rightarrow> Inl e | Inr (m, h) \<Rightarrow> hashmapGrow 5 m h)"

lemmas eval_defs = hashmapSet.simps hashmapGrow.simps hashmapGrowLoop.simps
      hashmapNext_def hashmapNextLoop.simps hashmapNextAdvance_def hashmapNewIterator_def
      hashmapGet_def bucketAt_def bucketNext_def memzero_def
      hashmapHasSpaceToGrow_def hashmapOverLoadFactor_def hashmapSetInsert_def
      hashmapTopHash_def hashmapBucketAddrForHash_def chainAt_def storeChain_def
      exampleExt_def zeroBucket_def upt8 fillSlot_def memcpy_def memequal_def Let_def
      allocBuckets_def fastrand_def bucketBufSize_def

lemma rep8: "replicate 8 x = [x,x,x,x,x,x,x,x]" and rep2: "replicate 2 x = [x,x]"
  by (simp_all add: numeral_eq_Suc)

lemma exampleGrown_eval:
  "exampleGrown =
     Inr (\<lparr>buckets = 2, seed = 1, count = 1, keySize = 1, valueSize = 1, bucketBits = 1,
       keyEqual = memequal, keyHash = hashmapKeyHashAlg exampleExt hashmapAlgorithmBinary\<rparr>,
      \<lparr>arrays = (\<lambda>a. [])(1 := [[\<lparr>tophash = [1,0,0,0,0,0,0,0],
            keys = [[1],[0],[0],[0],[0],[0],[0],[0]],
            vals = [[9],[0],[0],[0],[0],[0],[0],[0]]\<rparr>]],
          2 := [[\<lparr>tophash = [1,0,0,0,0,0,0,0],
            keys = [[1],[0],[0],[0],[0],[0],[0],[0]],
            vals = [[9],[0],[0],[0],[0],[0],[0],[0]]\<rparr>], [zeroBucket 1 1]]),
        nextAddr = 3, rand = (\<lambda>i. of_nat i), randPos = 2\<rparr>)"
  apply (simp add: exampleGrown_def exampleTable1_eval)
  apply (simp add: eval_defs rep8 rep2)
  done

definition exampleDeleted :: "hashmap option \<times> memory" where
  "exampleDeleted =
     (case exampleGrown of
        Inl e \<Rightarrow> (None, exampleMemory)
      | Inr (m, h) \<Rightarrow> hashmapBinaryDelete exampleExt (Some m) [1] h)"

lemma exampleDeleted_eval:
  "exampleDeleted =
     (Some \<lparr>buckets = 2, seed = 1, count = 0, keySize = 1, valueSize = 1, bucketBits = 1,
       keyEqual = memequal, keyHash = hashmapKeyHashAlg exampleExt hashmapAlgorithmBinary\<rparr>,
      \<lparr>arrays = (\<lambda>a. [])(1 := [[\<lparr>tophash = [1,0,0,0,0,0,0,0],
            keys = [[1],[0],[0],[0],[0],[0],[0],[0]],
            vals = [[9],[0],[0],[0],[0],[0],[0],[0]]\<rparr>]],
          2 := [[zeroBucket 1 1], [zeroBucket 1 1]]),
        nextAddr = 3, rand = (\<lambda>i. of_nat i), randPos = 2\<rparr>)"
  apply (simp add: exampleDeleted_def exampleGrown_eval)
  apply (simp add: hashmapBinaryDelete_def hashmapDelete_def deleteSlot_def eval_defs rep8 rep2)
  done

definition exampleIterator :: hashmapIterator where
  "exampleIterator =
     \<lparr>buckets_it = Some 1, numBuckets = 1, bucketNumber = 0, bucket = None, bucketIndex = 0\<rparr>"

section \<open>Lookup writes the whole output buffer\<close>

text \<open>
  C10. hashmapGet overwrites the output value buffer in every case. On a nil table it
  zeroes \<open>valueSize\<close> bytes as given by the caller. On a table it ignores that argument:
  on a hit the buffer receives \<open>m.valueSize\<close> bytes of the slot's value cell, on a miss
  \<open>m.valueSize\<close> zero bytes; for a buffer of that size this is the whole buffer.
\<close>

theorem get_overwrites_output:
  "(length value = unat valueSz \<longrightarrow>
      hashmapGet None key value valueSz hash h = (replicate (unat valueSz) 0, False)) \<and>
   (length value = unat (valueSize m) \<longrightarrow>
      hashmapGet (Some m) key value valueSz hash h =
        (case lookupChain m key (hashmapTopHash hash)
                (chainAt h (buckets m) (hashmapBucketAddrForHash m hash)) of
           Some (p, i) \<Rightarrow>
             (take (unat (valueSize m))
                (vals (chainAt h (buckets m) (hashmapBucketAddrForHash m hash) ! p) ! i), True)
         | None \<Rightarrow> (replicate (unat (valueSize m)) 0, False))) \<and>
   hashmapGet (Some m) key value valueSz hash h = hashmapGet (Some m) key value valueSz' hash h"
  by (auto simp: hashmapGet_def memzero_def memcpy_def Let_def split: option.splits)

theorem get_overwrites_output_witness:
  "hashmapGet None [1] [7, 7] 2 1 exampleMemory = ([0, 0], False) \<and>
   (case exampleTable1 of
      Inl e \<Rightarrow> False
    | Inr (m, h) \<Rightarrow>
        hashmapGet (Some m) [1] [7] 5 1 h = ([9], True) \<and>
        hashmapGet (Some m) [2] [7] 5 2 h = ([0], False))"
proof -
  let ?m = "\<lparr>buckets = 1, seed = 0, count = 1, keySize = 1, valueSize = 1, bucketBits = 0,
       keyEqual = memequal, keyHash = hashmapKeyHashAlg exampleExt hashmapAlgorithmBinary\<rparr>"
  let ?h = "\<lparr>arrays = (\<lambda>a. [])(1 := [[\<lparr>tophash = [1,0,0,0,0,0,0,0],
            keys = [[1],[0],[0],[0],[0],[0],[0],[0]],
            vals = [[9],[0],[0],[0],[0],[0],[0],[0]]\<rparr>]]),
        nextAddr = 2, rand = (\<lambda>i. of_nat i), randPos = 1\<rparr>"
  have a: "length [7 :: u8, 7] = unat (2 :: uintptr)" by simp
  have b: "length [7 :: u8] = unat (valueSize ?m)" by simp
  from get_overwrites_output [of "[7, 7]" 2 "[1]" 1 exampleMemory ?m 5] a
  have 1: "hashmapGet None [1] [7, 7] 2 1 exampleMemory = ([0, 0], False)"
    by (simp add: rep2)
  from get_overwrites_output [of "[7]" 5 "[1]" 1 ?h ?m 5] b
  have 2: "hashmapGet (Some ?m) [1] [7] 5 1 ?h = ([9], True)"
    by (simp add: hashmapTopHash_def hashmapBucketAddrForHash_def chainAt_def upt8 memequal_def)
  from get_overwrites_output [of "[7]" 5 "[2]" 2 ?h ?m 5] b
  have 3: "hashmapGet (Some ?m) [2] [7] 5 2 ?h = ([0], False)"
    by (simp add: hashmapTopHash_def hashmapBucketAddrForHash_def chainAt_def upt8 memequal_def)
  show ?thesis using 1 2 3 by (simp add: exampleTable1_eval)
qed

section \<open>Iteration at an occupied slot\<close>

text \<open>
  C5. Let a call of hashmapNext, with the iterator initialised on its first use, arrive
  at a slot of its snapshot whose tophash is not zero. The slot's key is copied to the
  key buffer. If the table's bucket pointer is still the snapshot, the slot's value is
  copied to the value buffer and the call returns true. Otherwise the key is looked up
  in the current table, under the hash the table's hash function gives it with the
  current seed (a panic of that function ends the call): found, the call returns true
  with the current value; not found, the loop goes on with the following slot.
\<close>

theorem next_occupied_slot:
  assumes "(a, it0) =
      (case buckets_it it of
         None \<Rightarrow> (buckets m, it\<lparr>buckets_it := Some (buckets m),
                                 numBuckets := push_bit (unat (bucketBits m)) 1\<rparr>)
       | Some a \<Rightarrow> (a, it))"
    and "hashmapNextAdvance h a it0 = Inr (False, it2)"
    and "bucket it2 = Some p"
    and "tophash (bucketAt h a p) ! unat (bucketIndex it2) \<noteq> 0"
    and "key1 = memcpy key (keys (bucketAt h a p) ! unat (bucketIndex it2)) (keySize m)"
    and "it3 = it2\<lparr>bucketIndex := bucketIndex it2 + 1\<rparr>"
  shows "hashmapNext (Some m) it key val h =
     (if a = buckets m
      then Inr (True, it3, key1,
                memcpy val (vals (bucketAt h a p) ! unat (bucketIndex it2)) (valueSize m))
      else (case keyHash m key1 (keySize m) (seed m) of
              Inl e \<Rightarrow> Inl e
            | Inr hash \<Rightarrow>
                (case hashmapGet (Some m) key1 val (valueSize m) hash h of
                   (value1, True) \<Rightarrow> Inr (True, it3, key1, value1)
                 | (value1, False) \<Rightarrow> hashmapNextLoop m a it3 key1 value1 h)))"
proof -
  have "hashmapNext (Some m) it key val h = hashmapNextLoop m a it0 key val h"
    using assms(1) by (auto simp: hashmapNext_def split: option.splits)
  also have "\<dots> =
     (if a = buckets m
      then Inr (True, it3, key1,
                memcpy val (vals (bucketAt h a p) ! unat (bucketIndex it2)) (valueSize m))
      else (case keyHash m key1 (keySize m) (seed m) of
              Inl e \<Rightarrow> Inl e
            | Inr hash \<Rightarrow>
                (case hashmapGet (Some m) key1 val (valueSize m) hash h of
                   (value1, True) \<Rightarrow> Inr (True, it3, key1, value1)
                 | (value1, False) \<Rightarrow> hashmapNextLoop m a it3 key1 value1 h)))"
    using assms(2-6)
    by (subst hashmapNextLoop.simps)
      (auto simp: Let_def split: prod.splits bool.splits sum.splits)
  finally show ?thesis .
qed

theorem next_occupied_slot_witness:
  "(case exampleTable1 of
      Inl e \<Rightarrow> False
    | Inr (m, h) \<Rightarrow>
        hashmapNext (Some m) hashmapNewIterator [0] [0] h =
          Inr (True, \<lparr>buckets_it = Some 1, numBuckets = 1, bucketNumber = 1,
                      bucket = Some (0, 0), bucketIndex = 1\<rparr>, [1], [9])) \<and>
   (case exampleGrown of
      Inl e \<Rightarrow> False
    | Inr (m, h) \<Rightarrow>
        hashmapNext (Some m) exampleIterator [0] [0] h =
          Inr (True, \<lparr>buckets_it = Some 1, numBuckets = 1, bucketNumber = 1,
                      bucket = Some (0, 0), bucketIndex = 1\<rparr>, [1], [9])) \<and>
   (case exampleDeleted of
      (mo, h) \<Rightarrow>
        hashmapNext mo exampleIterator [0] [0] h =
          Inr (False, \<lparr>buckets_it = Some 1, numBuckets = 1, bucketNumber = 1,
                       bucket = None, bucketIndex = 0\<rparr>, [1], [0]))"
proof -
  let ?it2 = "\<lparr>buckets_it = Some 1, numBuckets = 1, bucketNumber = 1,
                bucket = Some (0, 0), bucketIndex = 0\<rparr>"
  let ?it3 = "\<lparr>buckets_it = Some 1, numBuckets = 1, bucketNumber = 1,
                bucket = Some (0, 0), bucketIndex = 1\<rparr>"
  let ?b = "\<lparr>tophash = [1,0,0,0,0,0,0,0],
            keys = [[1],[0],[0],[0],[0],[0],[0],[0]],
            vals = [[9],[0],[0],[0],[0],[0],[0],[0 :: u8]]\<rparr>"
  let ?m1 = "\<lparr>buckets = 1, seed = 0, count = 1, keySize = 1, valueSize = 1, bucketBits = 0,
       keyEqual = memequal, keyHash = hashmapKeyHashAlg exampleExt hashmapAlgorithmBinary\<rparr>"
  let ?h1 = "\<lparr>arrays = (\<lambda>a. [])(1 := [[?b]]),
        nextAddr = 2, rand = (\<lambda>i. of_nat i), randPos = 1\<rparr>"
  let ?m2 = "\<lparr>buckets = 2, seed = 1, count = 1, keySize = 1, valueSize = 1, bucketBits = 1,
       keyEqual = memequal, keyHash = hashmapKeyHashAlg exampleExt hashmapAlgorithmBinary\<rparr>"
  let ?h2 = "\<lparr>arrays = (\<lambda>a. [])(1 := [[?b]], 2 := [[?b], [zeroBucket 1 1]]),
        nextAddr = 3, rand = (\<lambda>i. of_nat i), randPos = 2\<rparr>"
  let ?m3 = "?m2\<lparr>count := 0\<rparr>"
  let ?h3 = "\<lparr>arrays = (\<lambda>a. [])(1 := [[?b]], 2 := [[zeroBucket 1 1], [zeroBucket 1 1]]),
        nextAddr = 3, rand = (\<lambda>i. of_nat i), randPos = 2\<rparr>"
  have 1: "hashmapNext (Some ?m1) hashmapNewIterator [0] [0] ?h1 = Inr (True, ?it3, [1], [9])"
    using next_occupied_slot [where a = 1 and ?it0.0 = "hashmapNewIterator\<lparr>buckets_it := Some 1, numBuckets := 1\<rparr>" and it = hashmapNewIterator and m = ?m1 and h = ?h1 and ?it2.0 = ?it2 and p = "(0, 0)" and ?key1.0 = "[1]" and key = "[0]" and ?it3.0 = ?it3 and val = "[0]"]
    by (simp add: hashmapNewIterator_def hashmapNextAdvance_def bucketAt_def chainAt_def
        memcpy_def)
  have 2: "hashmapNext (Some ?m2) exampleIterator [0] [0] ?h2 = Inr (True, ?it3, [1], [9])"
    using next_occupied_slot [where a = 1 and ?it0.0 = exampleIterator and it = exampleIterator and m = ?m2 and h = ?h2 and ?it2.0 = ?it2 and p = "(0, 0)" and ?key1.0 = "[1]" and key = "[0]" and ?it3.0 = ?it3 and val = "[0]"]
    by (simp add: exampleIterator_def hashmapNextAdvance_def bucketAt_def chainAt_def
        memcpy_def hashmapGet_def hashmapTopHash_def hashmapBucketAddrForHash_def exampleExt_def
        upt8 memequal_def)
  have 3: "hashmapNext (Some ?m3) exampleIterator [0] [0] ?h3 =
      Inr (False, \<lparr>buckets_it = Some 1, numBuckets = 1, bucketNumber = 1,
                       bucket = None, bucketIndex = 0\<rparr>, [1], [0])"
    using next_occupied_slot [where a = 1 and ?it0.0 = exampleIterator and it = exampleIterator and m = ?m3 and h = ?h3 and ?it2.0 = ?it2 and p = "(0, 0)" and ?key1.0 = "[1]" and key = "[0]" and ?it3.0 = ?it3 and val = "[0]"]
    by (simp add: exampleIterator_def hashmapNextAdvance_def bucketAt_def chainAt_def
        memcpy_def memzero_def hashmapGet_def hashmapTopHash_def hashmapBucketAddrForHash_def
        exampleExt_def upt8 memequal_def zeroBucket_def rep8 hashmapNextLoop.simps bucketNext_def)
  show ?thesis using 1 2 3 by (simp add: exampleTable1_eval exampleGrown_eval exampleDeleted_eval)
qed

section \<open>Slots of a chain as one list\<close>

type_synonym slot = "u8 \<times> bytes \<times> bytes"

fun firstIndex :: "('a \<Rightarrow> bool) \<Rightarrow> 'a list \<Rightarrow> nat option" where
  "firstIndex P [] = None"
| "firstIndex P (x # xs) = (if P x then Some 0 else map_option Suc (firstIndex P xs))"

definition slotAt :: "hashmapBucket \<Rightarrow> nat \<Rightarrow> slot" where
  "slotAt b i = (tophash b ! i, keys b ! i, vals b ! i)"

definition slotsOf :: "hashmapBucket \<Rightarrow> slot list" where
  "slotsOf b = map (slotAt b) [0..<8]"

definition chainSlots :: "chain \<Rightarrow> slot list" where
  "chainSlots ch = concat (map slotsOf ch)"

definition matches :: "hashmap \<Rightarrow> bytes \<Rightarrow> u8 \<Rightarrow> slot \<Rightarrow> bool" where
  "matches m key th s = (fst s = th \<and> keyEqual m key (fst (snd s)) (keySize m))"

definition occupied :: "slot \<Rightarrow> bool" where
  "occupied s = (fst s \<noteq> 0)"

lemma firstIndex_Some_iff:
  "firstIndex P xs = Some j \<longleftrightarrow> j < length xs \<and> P (xs ! j) \<and> (\<forall>i < j. \<not> P (xs ! i))"
proof (induction xs arbitrary: j)
  case Nil
  then show ?case by simp
next
  case (Cons x xs)
  show ?case
  proof (cases "P x")
    case True
    then show ?thesis by (cases j) auto
  next
    case False
    show ?thesis
    proof (cases j)
      case 0
      with False show ?thesis by auto
    next
      case (Suc k)
      have "(\<forall>i<Suc k. \<not> P ((x # xs) ! i)) \<longleftrightarrow> (\<forall>i<k. \<not> P (xs ! i))"
        using False by (auto simp: less_Suc_eq_0_disj)
      with False Suc Cons.IH [of k] show ?thesis by auto
    qed
  qed
qed

lemma firstIndex_None_iff: "firstIndex P xs = None \<longleftrightarrow> (\<forall>x \<in> set xs. \<not> P x)"
  by (induction xs) auto

lemma firstIndex_append:
  "firstIndex P (xs @ ys) =
     (case firstIndex P xs of
        Some j \<Rightarrow> Some j
      | None \<Rightarrow> map_option (\<lambda>j. length xs + j) (firstIndex P ys))"
proof (induction xs)
  case Nil
  show ?case by (cases "firstIndex P ys") simp_all
next
  case (Cons x xs)
  then show ?case by (cases "firstIndex P ys") (auto split: option.splits)
qed

lemma firstIndex_cong:
  "(\<And>x. x \<in> set xs \<Longrightarrow> P x = Q x) \<Longrightarrow> firstIndex P xs = firstIndex Q xs"
  by (induction xs) auto

lemma firstIndex_update_same:
  assumes "j < length xs" "P y = P (xs ! j)"
  shows "firstIndex P (xs[j := y]) = firstIndex P xs"
proof -
  have "\<And>k. firstIndex P (xs[j := y]) = Some k \<longleftrightarrow> firstIndex P xs = Some k"
    using assms by (auto simp: firstIndex_Some_iff nth_list_update)
  then show ?thesis by (metis option.exhaust)
qed

lemma length_slotsOf [simp]: "length (slotsOf b) = 8"
  by (simp add: slotsOf_def)

lemma slotsOf_nth [simp]: "i < 8 \<Longrightarrow> slotsOf b ! i = slotAt b i"
  unfolding slotsOf_def by (subst nth_map) simp_all

lemma length_chainSlots [simp]: "length (chainSlots ch) = 8 * length ch"
  by (induction ch) (simp_all add: chainSlots_def)

lemma chainSlots_Cons [simp]: "chainSlots (b # bs) = slotsOf b @ chainSlots bs"
  by (simp add: chainSlots_def)

lemma chainSlots_Nil [simp]: "chainSlots [] = []"
  by (simp add: chainSlots_def)

lemma chainSlots_append [simp]: "chainSlots (xs @ ys) = chainSlots xs @ chainSlots ys"
  by (simp add: chainSlots_def)

lemma chainSlots_nth:
  "j < 8 * length ch \<Longrightarrow> chainSlots ch ! j = slotAt (ch ! (j div 8)) (j mod 8)"
proof (induction ch arbitrary: j)
  case Nil
  then show ?case by simp
next
  case (Cons b bs)
  show ?case
  proof (cases "j < 8")
    case True
    then show ?thesis by (simp add: nth_append)
  next
    case False
    then have j: "j = (j - 8) + 8" by simp
    have d: "j div 8 = Suc ((j - 8) div 8)" "j mod 8 = (j - 8) mod 8"
      using False by (simp_all add: le_div_geq le_mod_geq)
    have "j - 8 < 8 * length bs" using Cons.prems False by simp
    from Cons.IH [OF this] False show ?thesis by (simp add: nth_append d)
  qed
qed

lemma chainSlots_at:
  "p < length ch \<Longrightarrow> i < 8 \<Longrightarrow> chainSlots ch ! (8 * p + i) = slotAt (ch ! p) i"
  by (subst chainSlots_nth) simp_all

lemma chainSlots_update:
  assumes "p < length ch" "i < 8"
    and "\<And>k. k < 8 \<Longrightarrow> slotAt b k = (if k = i then s else slotAt (ch ! p) k)"
  shows "chainSlots (ch[p := b]) = (chainSlots ch)[8 * p + i := s]"
proof (rule nth_equalityI)
  show "length (chainSlots (ch[p := b])) = length ((chainSlots ch)[8 * p + i := s])" by simp
next
  fix j assume "j < length (chainSlots (ch[p := b]))"
  then have j: "j < 8 * length ch" by simp
  then have jd: "j div 8 < length ch" by (simp add: less_mult_imp_div_less mult.commute)
  have eq: "j = 8 * p + i \<longleftrightarrow> j div 8 = p \<and> j mod 8 = i"
    using assms(2) by auto
  show "chainSlots (ch[p := b]) ! j = (chainSlots ch)[8 * p + i := s] ! j"
  proof (cases "j div 8 = p")
    case True
    have "chainSlots (ch[p := b]) ! j = slotAt b (j mod 8)"
      using j True assms(1) by (subst chainSlots_nth) simp_all
    also have "\<dots> = (if j mod 8 = i then s else slotAt (ch ! p) (j mod 8))"
      by (rule assms(3)) simp
    also have "\<dots> = (chainSlots ch)[8 * p + i := s] ! j"
      using j True eq by (auto simp: nth_list_update chainSlots_nth)
    finally show ?thesis .
  next
    case False
    have "chainSlots (ch[p := b]) ! j = slotAt (ch ! (j div 8)) (j mod 8)"
      using j False jd by (subst chainSlots_nth) simp_all
    also have "\<dots> = (chainSlots ch)[8 * p + i := s] ! j"
      using j False eq by (auto simp: nth_list_update chainSlots_nth)
    finally show ?thesis .
  qed
qed

lemma firstIndex_less: "firstIndex P xs = Some j \<Longrightarrow> j < length xs"
  by (simp add: firstIndex_Some_iff)

lemma div8_add [simp]: "(8 + x) div 8 = Suc (x div 8)" "(8 + x) mod 8 = x mod (8 :: nat)"
  by simp_all

lemma lookupSlots_eq:
  "lookupSlots m key th b is =
     map_option (\<lambda>j. is ! j) (firstIndex (matches m key th) (map (slotAt b) is))"
  by (induction "is") (auto simp: matches_def slotAt_def option.map_comp comp_def)

lemma lookupSlots8:
  "lookupSlots m key th b [0..<8] = firstIndex (matches m key th) (slotsOf b)"
proof (cases "firstIndex (matches m key th) (slotsOf b)")
  case None
  then show ?thesis by (simp add: lookupSlots_eq slotsOf_def)
next
  case (Some j)
  then have "j < 8" using firstIndex_less [OF Some] by simp
  then have "[0..<8] ! j = j" by (metis add_0 nth_upt)
  with Some show ?thesis by (simp add: lookupSlots_eq slotsOf_def)
qed

lemma lookupChain_eq:
  "lookupChain m key th ch =
     map_option (\<lambda>j. (j div 8, j mod 8)) (firstIndex (matches m key th) (chainSlots ch))"
proof (induction ch)
  case Nil
  then show ?case by simp
next
  case (Cons b bs)
  show ?case
  proof (cases "firstIndex (matches m key th) (slotsOf b)")
    case None
    then show ?thesis
      by (simp add: lookupSlots8 firstIndex_append Cons.IH option.map_comp comp_def)
  next
    case (Some j)
    then have "j < 8" using firstIndex_less [OF Some] by simp
    with Some show ?thesis by (simp add: lookupSlots8 firstIndex_append)
  qed
qed

definition emptySlot :: "slot \<Rightarrow> bool" where
  "emptySlot s = (fst s = 0)"

lemma setSlots_eq:
  "setSlots m key th p b e is =
     (case firstIndex (matches m key th) (map (slotAt b) is) of
        Some j \<Rightarrow> Inl (p, is ! j)
      | None \<Rightarrow>
          Inr (case e of
                 Some x \<Rightarrow> Some x
               | None \<Rightarrow> map_option (\<lambda>j. (p, is ! j)) (firstIndex emptySlot (map (slotAt b) is))))"
proof (induction "is" arbitrary: e)
  case Nil
  then show ?case by (simp split: option.splits)
next
  case (Cons i "is")
  show ?case
    by (cases e)
      (auto simp: Cons.IH Let_def matches_def emptySlot_def slotAt_def option.map_comp comp_def
        split: option.splits)
qed

lemma upt8_nth: "j < 8 \<Longrightarrow> [0..<8] ! j = j"
  by (metis add_0 nth_upt)

lemma setSlots8:
  "setSlots m key th p b e [0..<8] =
     (case firstIndex (matches m key th) (slotsOf b) of
        Some j \<Rightarrow> Inl (p, j)
      | None \<Rightarrow>
          Inr (case e of
                 Some x \<Rightarrow> Some x
               | None \<Rightarrow> map_option (\<lambda>j. (p, j)) (firstIndex emptySlot (slotsOf b))))"
proof -
  have a: "\<And>j. firstIndex (matches m key th) (slotsOf b) = Some j \<Longrightarrow> [0..<8] ! j = j"
    using firstIndex_less upt8_nth by fastforce
  have b: "\<And>j. firstIndex emptySlot (slotsOf b) = Some j \<Longrightarrow> [0..<8] ! j = j"
    using firstIndex_less upt8_nth by fastforce
  show ?thesis
    unfolding setSlots_eq slotsOf_def [symmetric]
    by (cases "firstIndex (matches m key th) (slotsOf b)";
        cases "firstIndex emptySlot (slotsOf b)"; cases e) (simp_all add: a b)
qed

lemma setChain_eq:
  "setChain m key th p e ch =
     (case firstIndex (matches m key th) (chainSlots ch) of
        Some j \<Rightarrow> Inl (p + j div 8, j mod 8)
      | None \<Rightarrow>
          Inr (case e of
                 Some x \<Rightarrow> Some x
               | None \<Rightarrow> map_option (\<lambda>j. (p + j div 8, j mod 8))
                           (firstIndex emptySlot (chainSlots ch))))"
proof (induction ch arbitrary: p e)
  case Nil
  then show ?case by (simp split: option.splits)
next
  case (Cons b bs)
  show ?case
  proof (cases "firstIndex (matches m key th) (slotsOf b)")
    case (Some j)
    then have "j < 8" using firstIndex_less [OF Some] by simp
    with Some show ?thesis by (simp add: setSlots8 firstIndex_append)
  next
    case None
    note nm = None
    show ?thesis
    proof (cases e)
      case (Some x)
      with nm show ?thesis
        by (simp add: setSlots8 firstIndex_append Cons.IH split: option.splits)
    next
      case None
      show ?thesis
      proof (cases "firstIndex emptySlot (slotsOf b)")
        case (Some i)
        then have "i < 8" using firstIndex_less [OF Some] by simp
        with Some nm None show ?thesis
          by (simp add: setSlots8 firstIndex_append Cons.IH split: option.splits)
      next
        case None
        with nm \<open>e = None\<close> show ?thesis
          by (simp add: setSlots8 firstIndex_append Cons.IH option.map_comp comp_def
              split: option.splits)
      qed
    qed
  qed
qed

section \<open>Well-formed tables\<close>

definition wfBucket :: "hashmap \<Rightarrow> hashmapBucket \<Rightarrow> bool" where
  "wfBucket m b \<longleftrightarrow>
     length (tophash b) = 8 \<and> length (keys b) = 8 \<and> length (vals b) = 8 \<and>
     (\<forall>k \<in> set (keys b). length k = unat (keySize m)) \<and>
     (\<forall>v \<in> set (vals b). length v = unat (valueSize m))"

definition wfChain :: "hashmap \<Rightarrow> chain \<Rightarrow> bool" where
  "wfChain m ch \<longleftrightarrow> ch \<noteq> [] \<and> (\<forall>b \<in> set ch. wfBucket m b)"

definition wfTable :: "hashmap \<Rightarrow> memory \<Rightarrow> bool" where
  "wfTable m h \<longleftrightarrow>
     unat (bucketBits m) \<le> 62 \<and>
     length (arrays h (buckets m)) = 2 ^ unat (bucketBits m) \<and>
     (\<forall>ch \<in> set (arrays h (buckets m)). wfChain m ch) \<and>
     buckets m < nextAddr h"

definition tslots :: "hashmap \<Rightarrow> memory \<Rightarrow> nat \<Rightarrow> slot list" where
  "tslots m h n = chainSlots (chainAt h (buckets m) n)"

definition zeroSlot :: "hashmap \<Rightarrow> slot" where
  "zeroSlot m = (0, replicate (unat (keySize m)) 0, replicate (unat (valueSize m)) 0)"

definition wfSlot :: "hashmap \<Rightarrow> slot \<Rightarrow> bool" where
  "wfSlot m s \<longleftrightarrow> length (fst (snd s)) = unat (keySize m) \<and> length (snd (snd s)) = unat (valueSize m)"

lemma memcpy_exact [simp]: "length src = unat n \<Longrightarrow> length dst = unat n \<Longrightarrow> memcpy dst src n = src"
  by (simp add: memcpy_def)

lemma memzero_exact [simp]: "length dst = unat n \<Longrightarrow> memzero dst n = replicate (unat n) 0"
  by (simp add: memzero_def)

lemma bucketAddr_less:
  assumes "unat (bucketBits m) \<le> 62"
  shows "hashmapBucketAddrForHash m hash < 2 ^ unat (bucketBits m)"
proof -
  let ?b = "unat (bucketBits m)"
  have "push_bit ?b (1 :: uintptr) - 1 = mask ?b" by (simp add: mask_eq_decr_exp)
  then have "hashmapBucketAddrForHash m hash = unat ((ucast hash :: uintptr) AND mask ?b)"
    by (simp add: hashmapBucketAddrForHash_def Let_def)
  moreover have "uint ((ucast hash :: uintptr) AND mask ?b) < 2 ^ ?b" by (rule and_mask_lt_2p)
  then have "unat ((ucast hash :: uintptr) AND mask ?b) < 2 ^ ?b"
    using of_nat_less_numeral_power_cancel_iff by fastforce
  ultimately show ?thesis by simp
qed

lemma wfBucket_slotAt:
  "wfBucket m b \<Longrightarrow> i < 8 \<Longrightarrow> wfSlot m (slotAt b i)"
  by (simp add: wfBucket_def wfSlot_def slotAt_def)

lemma wfBucket_slots: "wfBucket m b \<Longrightarrow> s \<in> set (slotsOf b) \<Longrightarrow> wfSlot m s"
  by (auto simp: slotsOf_def wfBucket_slotAt)

lemma wfChain_slots: "wfChain m ch \<Longrightarrow> s \<in> set (chainSlots ch) \<Longrightarrow> wfSlot m s"
  by (auto simp: chainSlots_def wfChain_def wfBucket_slots)

lemma wfTable_chain:
  "wfTable m h \<Longrightarrow> n < 2 ^ unat (bucketBits m) \<Longrightarrow> wfChain m (chainAt h (buckets m) n)"
  by (simp add: wfTable_def chainAt_def)

lemma wfTable_slots:
  "wfTable m h \<Longrightarrow> n < 2 ^ unat (bucketBits m) \<Longrightarrow> s \<in> set (tslots m h n) \<Longrightarrow> wfSlot m s"
  unfolding tslots_def by (rule wfChain_slots [OF wfTable_chain])

lemma wfTable_home:
  "wfTable m h \<Longrightarrow> wfChain m (chainAt h (buckets m) (hashmapBucketAddrForHash m hash))"
  by (rule wfTable_chain) (simp_all add: bucketAddr_less wfTable_def)

subsection \<open>Writing one slot\<close>

lemma slotAt_deleteSlot:
  "wfBucket m b \<Longrightarrow> i < 8 \<Longrightarrow> k < 8 \<Longrightarrow>
   slotAt (deleteSlot m b i) k = (if k = i then zeroSlot m else slotAt b k)"
  by (simp add: slotAt_def deleteSlot_def zeroSlot_def wfBucket_def nth_list_update)

lemma slotAt_fillSlot:
  "wfBucket m b \<Longrightarrow> i < 8 \<Longrightarrow> k < 8 \<Longrightarrow> length key = unat (keySize m) \<Longrightarrow>
   length val = unat (valueSize m) \<Longrightarrow>
   slotAt (fillSlot m b i key val th) k = (if k = i then (th, key, val) else slotAt b k)"
  by (simp add: slotAt_def fillSlot_def wfBucket_def nth_list_update)

lemma slotAt_setValue:
  "wfBucket m b \<Longrightarrow> i < 8 \<Longrightarrow> k < 8 \<Longrightarrow> length val = unat (valueSize m) \<Longrightarrow>
   slotAt (b\<lparr>vals := (vals b)[i := memcpy (vals b ! i) val (valueSize m)]\<rparr>) k =
     (if k = i then (tophash b ! i, keys b ! i, val) else slotAt b k)"
  by (simp add: slotAt_def wfBucket_def nth_list_update)

lemma wfBucket_deleteSlot: "wfBucket m b \<Longrightarrow> i < 8 \<Longrightarrow> wfBucket m (deleteSlot m b i)"
  by (auto simp: wfBucket_def deleteSlot_def dest!: set_update_subset_insert [THEN subsetD])

lemma wfBucket_fillSlot:
  "wfBucket m b \<Longrightarrow> i < 8 \<Longrightarrow> length key = unat (keySize m) \<Longrightarrow>
   length val = unat (valueSize m) \<Longrightarrow> wfBucket m (fillSlot m b i key val th)"
  by (auto simp: wfBucket_def fillSlot_def dest!: set_update_subset_insert [THEN subsetD])

lemma wfBucket_setValue:
  "wfBucket m b \<Longrightarrow> i < 8 \<Longrightarrow> length val = unat (valueSize m) \<Longrightarrow>
   wfBucket m (b\<lparr>vals := (vals b)[i := memcpy (vals b ! i) val (valueSize m)]\<rparr>)"
  by (auto simp: wfBucket_def dest!: set_update_subset_insert [THEN subsetD])

lemma wfBucket_zero: "wfBucket m (zeroBucket (keySize m) (valueSize m))"
  by (simp add: wfBucket_def zeroBucket_def)

lemma wfChain_update: "wfChain m ch \<Longrightarrow> wfBucket m b \<Longrightarrow> wfChain m (ch[p := b])"
  by (auto simp: wfChain_def dest!: set_update_subset_insert [THEN subsetD])

lemma wfChain_append: "wfChain m ch \<Longrightarrow> wfBucket m b \<Longrightarrow> wfChain m (ch @ [b])"
  by (auto simp: wfChain_def)

lemma wfChain_nth: "wfChain m ch \<Longrightarrow> p < length ch \<Longrightarrow> wfBucket m (ch ! p)"
  by (simp add: wfChain_def)

lemma slotsOf_zero: "slotsOf (zeroBucket (keySize m) (valueSize m)) = replicate 8 (zeroSlot m)"
  by (rule nth_equalityI) (simp_all add: slotAt_def zeroBucket_def zeroSlot_def)

subsection \<open>Writing a chain back\<close>

lemma wfTable_storeChain:
  "wfTable m h \<Longrightarrow> wfChain m ch \<Longrightarrow> wfTable m (storeChain h (buckets m) n ch)"
  by (auto simp: wfTable_def storeChain_def dest!: set_update_subset_insert [THEN subsetD])

lemma tslots_storeChain:
  "n < length (arrays h (buckets m)) \<Longrightarrow>
   tslots m (storeChain h (buckets m) n ch) = (tslots m h)(n := chainSlots ch)"
  by (rule ext) (simp add: tslots_def chainAt_def storeChain_def)

lemma tslots_count [simp]: "tslots (m\<lparr>count := c\<rparr>) h = tslots m h"
  by (rule ext) (simp add: tslots_def)

lemma wfTable_count [simp]: "wfTable (m\<lparr>count := c\<rparr>) h = wfTable m h"
  by (simp add: wfTable_def wfChain_def wfBucket_def)

definition sameOutside :: "nat \<Rightarrow> memory \<Rightarrow> memory \<Rightarrow> bool" where
  "sameOutside a h h1 \<longleftrightarrow>
     (\<forall>a1. a1 \<noteq> a \<longrightarrow> arrays h1 a1 = arrays h a1) \<and>
     nextAddr h1 = nextAddr h \<and> rand h1 = rand h \<and> randPos h1 = randPos h"

lemma sameOutside_storeChain: "sameOutside a h (storeChain h a n ch)"
  by (simp add: sameOutside_def storeChain_def)

lemma split_index:
  assumes "j < 8 * length (ch :: chain)"
  shows "j div 8 < length ch" "j mod 8 < 8" "8 * (j div 8) + j mod 8 = j"
  using assms by (simp_all add: less_mult_imp_div_less mult.commute)

lemma home_length:
  "wfTable m h \<Longrightarrow> hashmapBucketAddrForHash m hash < length (arrays h (buckets m))"
  by (simp add: wfTable_def bucketAddr_less)

lemma delete_none:
  "firstIndex (matches m key (hashmapTopHash hash))
      (tslots m h (hashmapBucketAddrForHash m hash)) = None \<Longrightarrow>
   hashmapDelete (Some m) key hash h = (Some m, h)"
  by (simp add: hashmapDelete_def lookupChain_eq tslots_def Let_def)

lemma delete_some:
  assumes wf: "wfTable m h"
    and fi: "firstIndex (matches m key (hashmapTopHash hash))
      (tslots m h (hashmapBucketAddrForHash m hash)) = Some j"
  shows "\<exists>h1. hashmapDelete (Some m) key hash h = (Some (m\<lparr>count := count m - 1\<rparr>), h1) \<and>
     wfTable m h1 \<and> sameOutside (buckets m) h h1 \<and>
     tslots m h1 = (tslots m h)(hashmapBucketAddrForHash m hash :=
        (tslots m h (hashmapBucketAddrForHash m hash))[j := zeroSlot m])"
proof -
  let ?n = "hashmapBucketAddrForHash m hash"
  let ?ch = "chainAt h (buckets m) ?n"
  let ?p = "j div 8" and ?i = "j mod 8"
  have wch: "wfChain m ?ch" using wf by (rule wfTable_home)
  have j: "j < 8 * length ?ch" using firstIndex_less [OF fi] by (simp add: tslots_def)
  note sp = split_index [OF j]
  have wb: "wfBucket m (?ch ! ?p)" using wch sp(1) by (rule wfChain_nth)
  let ?ch1 = "?ch[?p := deleteSlot m (?ch ! ?p) ?i]"
  let ?h1 = "storeChain h (buckets m) ?n ?ch1"
  have res: "hashmapDelete (Some m) key hash h = (Some (m\<lparr>count := count m - 1\<rparr>), ?h1)"
    using fi by (simp add: hashmapDelete_def lookupChain_eq tslots_def Let_def)
  have sl: "chainSlots ?ch1 = (chainSlots ?ch)[8 * ?p + ?i := zeroSlot m]"
    using sp(1) sp(2) by (rule chainSlots_update) (simp add: slotAt_deleteSlot [OF wb sp(2)])
  have wch1: "wfChain m ?ch1"
    using wch by (rule wfChain_update) (rule wfBucket_deleteSlot [OF wb sp(2)])
  have "tslots m ?h1 = (tslots m h)(?n := (tslots m h ?n)[j := zeroSlot m])"
    using sl sp(3) by (simp add: tslots_storeChain [OF home_length [OF wf]] tslots_def)
  with res wfTable_storeChain [OF wf wch1] sameOutside_storeChain show ?thesis by blast
qed

lemma set_found:
  assumes wf: "wfTable m h" and lv: "length val = unat (valueSize m)"
    and fi: "firstIndex (matches m key (hashmapTopHash hash))
      (tslots m h (hashmapBucketAddrForHash m hash)) = Some j"
  shows "\<exists>h1. hashmapSetInsert m key val hash h = (m, h1) \<and>
     wfTable m h1 \<and> sameOutside (buckets m) h h1 \<and>
     tslots m h1 = (tslots m h)(hashmapBucketAddrForHash m hash :=
        (tslots m h (hashmapBucketAddrForHash m hash))
          [j := (fst (tslots m h (hashmapBucketAddrForHash m hash) ! j),
                 fst (snd (tslots m h (hashmapBucketAddrForHash m hash) ! j)), val)])"
proof -
  let ?n = "hashmapBucketAddrForHash m hash"
  let ?ch = "chainAt h (buckets m) ?n"
  let ?p = "j div 8" and ?i = "j mod 8"
  have wch: "wfChain m ?ch" using wf by (rule wfTable_home)
  have j: "j < 8 * length ?ch" using firstIndex_less [OF fi] by (simp add: tslots_def)
  note sp = split_index [OF j]
  have wb: "wfBucket m (?ch ! ?p)" using wch sp(1) by (rule wfChain_nth)
  let ?b1 = "(?ch ! ?p)\<lparr>vals := (vals (?ch ! ?p))
      [?i := memcpy (vals (?ch ! ?p) ! ?i) val (valueSize m)]\<rparr>"
  let ?ch1 = "?ch[?p := ?b1]"
  let ?h1 = "storeChain h (buckets m) ?n ?ch1"
  let ?s = "(tophash (?ch ! ?p) ! ?i, keys (?ch ! ?p) ! ?i, val)"
  have res: "hashmapSetInsert m key val hash h = (m, ?h1)"
    using fi by (simp add: hashmapSetInsert_def setChain_eq tslots_def Let_def)
  have sl: "chainSlots ?ch1 = (chainSlots ?ch)[8 * ?p + ?i := ?s]"
    using sp(1) sp(2) by (rule chainSlots_update) (simp add: slotAt_setValue [OF wb sp(2) _ lv])
  have old: "chainSlots ?ch ! j = slotAt (?ch ! ?p) ?i"
    using j by (rule chainSlots_nth)
  have wch1: "wfChain m ?ch1"
    using wch by (rule wfChain_update) (rule wfBucket_setValue [OF wb sp(2) lv])
  have "tslots m ?h1 = (tslots m h)(?n := (tslots m h ?n)
      [j := (fst (tslots m h ?n ! j), fst (snd (tslots m h ?n ! j)), val)])"
    using sl sp(3) old
    by (simp add: tslots_storeChain [OF home_length [OF wf]] tslots_def slotAt_def)
  with res wfTable_storeChain [OF wf wch1] sameOutside_storeChain show ?thesis by blast
qed

lemma set_empty:
  assumes wf: "wfTable m h" and lv: "length val = unat (valueSize m)"
    and lk: "length key = unat (keySize m)"
    and fi: "firstIndex (matches m key (hashmapTopHash hash))
      (tslots m h (hashmapBucketAddrForHash m hash)) = None"
    and fe: "firstIndex emptySlot (tslots m h (hashmapBucketAddrForHash m hash)) = Some e"
  shows "\<exists>h1. hashmapSetInsert m key val hash h = (m\<lparr>count := count m + 1\<rparr>, h1) \<and>
     wfTable m h1 \<and> sameOutside (buckets m) h h1 \<and>
     tslots m h1 = (tslots m h)(hashmapBucketAddrForHash m hash :=
        (tslots m h (hashmapBucketAddrForHash m hash))[e := (hashmapTopHash hash, key, val)])"
proof -
  let ?n = "hashmapBucketAddrForHash m hash"
  let ?ch = "chainAt h (buckets m) ?n"
  let ?p = "e div 8" and ?i = "e mod 8"
  have wch: "wfChain m ?ch" using wf by (rule wfTable_home)
  have j: "e < 8 * length ?ch" using firstIndex_less [OF fe] by (simp add: tslots_def)
  note sp = split_index [OF j]
  have wb: "wfBucket m (?ch ! ?p)" using wch sp(1) by (rule wfChain_nth)
  let ?b1 = "fillSlot m (?ch ! ?p) ?i key val (hashmapTopHash hash)"
  let ?ch1 = "?ch[?p := ?b1]"
  let ?h1 = "storeChain h (buckets m) ?n ?ch1"
  have res: "hashmapSetInsert m key val hash h = (m\<lparr>count := count m + 1\<rparr>, ?h1)"
    using fi fe by (simp add: hashmapSetInsert_def setChain_eq tslots_def Let_def)
  have sl: "chainSlots ?ch1 = (chainSlots ?ch)[8 * ?p + ?i := (hashmapTopHash hash, key, val)]"
    using sp(1) sp(2) by (rule chainSlots_update) (simp add: slotAt_fillSlot [OF wb sp(2) _ lk lv])
  have wch1: "wfChain m ?ch1"
    using wch by (rule wfChain_update) (rule wfBucket_fillSlot [OF wb sp(2) lk lv])
  have "tslots m ?h1 = (tslots m h)(?n := (tslots m h ?n)[e := (hashmapTopHash hash, key, val)])"
    using sl sp(3) by (simp add: tslots_storeChain [OF home_length [OF wf]] tslots_def)
  with res wfTable_storeChain [OF wf wch1] sameOutside_storeChain show ?thesis by blast
qed

lemma slotsOf_fill_zero:
  assumes "length key = unat (keySize m)" "length val = unat (valueSize m)"
  shows "slotsOf (fillSlot m (zeroBucket (keySize m) (valueSize m)) 0 key val th) =
     (th, key, val) # replicate 7 (zeroSlot m)"
proof (rule nth_equalityI)
  show "length (slotsOf (fillSlot m (zeroBucket (keySize m) (valueSize m)) 0 key val th)) =
    length ((th, key, val) # replicate 7 (zeroSlot m))" by simp
next
  fix k assume "k < length (slotsOf (fillSlot m (zeroBucket (keySize m) (valueSize m)) 0 key val th))"
  then have k: "k < 8" by simp
  have z: "slotAt (zeroBucket (keySize m) (valueSize m)) k = zeroSlot m"
    using k by (simp add: slotAt_def zeroBucket_def zeroSlot_def)
  show "slotsOf (fillSlot m (zeroBucket (keySize m) (valueSize m)) 0 key val th) ! k =
    ((th, key, val) # replicate 7 (zeroSlot m)) ! k"
    using k z assms by (cases k) (simp_all add: slotAt_fillSlot [OF wfBucket_zero])
qed

lemma set_full:
  assumes wf: "wfTable m h" and lv: "length val = unat (valueSize m)"
    and lk: "length key = unat (keySize m)"
    and fi: "firstIndex (matches m key (hashmapTopHash hash))
      (tslots m h (hashmapBucketAddrForHash m hash)) = None"
    and fe: "firstIndex emptySlot (tslots m h (hashmapBucketAddrForHash m hash)) = None"
  shows "\<exists>h1. hashmapSetInsert m key val hash h = (m\<lparr>count := count m + 1\<rparr>, h1) \<and>
     wfTable m h1 \<and> sameOutside (buckets m) h h1 \<and>
     tslots m h1 = (tslots m h)(hashmapBucketAddrForHash m hash :=
        tslots m h (hashmapBucketAddrForHash m hash)
          @ (hashmapTopHash hash, key, val) # replicate 7 (zeroSlot m))"
proof -
  let ?n = "hashmapBucketAddrForHash m hash"
  let ?ch = "chainAt h (buckets m) ?n"
  have wch: "wfChain m ?ch" using wf by (rule wfTable_home)
  let ?nb = "fillSlot m (zeroBucket (keySize m) (valueSize m)) 0 key val (hashmapTopHash hash)"
  let ?h1 = "storeChain h (buckets m) ?n (?ch @ [?nb])"
  have res: "hashmapSetInsert m key val hash h = (m\<lparr>count := count m + 1\<rparr>, ?h1)"
    using fi fe
    by (simp add: hashmapSetInsert_def setChain_eq tslots_def Let_def
        hashmapInsertIntoNewBucket_def)
  have wnb: "wfBucket m ?nb" using wfBucket_zero by (rule wfBucket_fillSlot) (simp_all add: lk lv)
  have wch1: "wfChain m (?ch @ [?nb])" using wch wnb by (rule wfChain_append)
  have "tslots m ?h1 = (tslots m h)(?n := tslots m h ?n
      @ (hashmapTopHash hash, key, val) # replicate 7 (zeroSlot m))"
    by (simp add: tslots_storeChain [OF home_length [OF wf]] tslots_def
        slotsOf_fill_zero [OF lk lv])
  with res wfTable_storeChain [OF wf wch1] sameOutside_storeChain show ?thesis by blast
qed

section \<open>What a lookup finds\<close>

text \<open>
  The key equality and the hash function of a table are function pointers; what the
  rest of the development needs of them is collected here. \<open>norm\<close> maps a key cell to
  its equality class, and to \<open>None\<close> when the key equals nothing, not even itself (a
  floating-point NaN under the equality of the language). Two keys are equal when they
  have the same class and that class is not \<open>None\<close>; equal keys have equal hashes under
  every seed; and whether the hash function panics on a key does not depend on the
  seed.
\<close>

definition discipline :: "hashmap \<Rightarrow> (bytes \<Rightarrow> 'c option) \<Rightarrow> bool" where
  "discipline m norm \<longleftrightarrow>
     (\<forall>x y. length x = unat (keySize m) \<longrightarrow> length y = unat (keySize m) \<longrightarrow>
        keyEqual m x y (keySize m) = (norm x \<noteq> None \<and> norm x = norm y)) \<and>
     (\<forall>x y s. length x = unat (keySize m) \<longrightarrow> length y = unat (keySize m) \<longrightarrow>
        norm x \<noteq> None \<longrightarrow> norm x = norm y \<longrightarrow>
        keyHash m x (keySize m) s = keyHash m y (keySize m) s) \<and>
     (\<forall>x s s'. length x = unat (keySize m) \<longrightarrow>
        isl (keyHash m x (keySize m) s) \<longrightarrow> isl (keyHash m x (keySize m) s'))"

text \<open>
  \<open>hashable\<close>: the table's hash function returns on the key, under the current seed.
  \<open>hashOf\<close> is the hash it returns then.
\<close>

definition hashable :: "hashmap \<Rightarrow> bytes \<Rightarrow> bool" where
  "hashable m key \<longleftrightarrow> \<not> isl (keyHash m key (keySize m) (seed m))"

definition hashOf :: "hashmap \<Rightarrow> bytes \<Rightarrow> u32" where
  "hashOf m key = (case keyHash m key (keySize m) (seed m) of Inl e \<Rightarrow> 0 | Inr v \<Rightarrow> v)"

definition homeOf :: "hashmap \<Rightarrow> bytes \<Rightarrow> nat" where
  "homeOf m key = hashmapBucketAddrForHash m (hashOf m key)"

definition topOf :: "hashmap \<Rightarrow> bytes \<Rightarrow> u8" where
  "topOf m key = hashmapTopHash (hashOf m key)"

definition lookupValue :: "hashmap \<Rightarrow> memory \<Rightarrow> bytes \<Rightarrow> bytes option" where
  "lookupValue m h key =
     (case firstIndex (matches m key (topOf m key)) (tslots m h (homeOf m key)) of
        None \<Rightarrow> None
      | Some j \<Rightarrow> Some (snd (snd (tslots m h (homeOf m key) ! j))))"

lemma hashOf_eq: "keyHash m key (keySize m) (seed m) = Inr v \<Longrightarrow> hashOf m key = v"
  by (simp add: hashOf_def)

lemma hashable_eq: "keyHash m key (keySize m) (seed m) = Inr v \<Longrightarrow> hashable m key"
  by (simp add: hashable_def)

lemma hashable_hashOf: "hashable m key \<Longrightarrow> keyHash m key (keySize m) (seed m) = Inr (hashOf m key)"
  by (cases "keyHash m key (keySize m) (seed m)") (simp_all add: hashable_def hashOf_def)

lemma matches_count [simp]: "matches (m\<lparr>count := c\<rparr>) = matches m"
  by (simp add: fun_eq_iff matches_def)

lemma hashOf_count [simp]: "hashOf (m\<lparr>count := c\<rparr>) = hashOf m"
  by (simp add: fun_eq_iff hashOf_def)

lemma hashable_count [simp]: "hashable (m\<lparr>count := c\<rparr>) = hashable m"
  by (simp add: fun_eq_iff hashable_def)

lemma homeOf_count [simp]: "homeOf (m\<lparr>count := c\<rparr>) = homeOf m"
  by (simp add: fun_eq_iff homeOf_def hashmapBucketAddrForHash_def)

lemma topOf_count [simp]: "topOf (m\<lparr>count := c\<rparr>) = topOf m"
  by (simp add: fun_eq_iff topOf_def)

lemma lookupValue_count [simp]: "lookupValue (m\<lparr>count := c\<rparr>) = lookupValue m"
  by (simp add: fun_eq_iff lookupValue_def cong: option.case_cong)

lemma discipline_count [simp]: "discipline (m\<lparr>count := c\<rparr>) = discipline m"
  by (simp add: fun_eq_iff discipline_def)

lemma zeroSlot_count [simp]: "zeroSlot (m\<lparr>count := c\<rparr>) = zeroSlot m"
  by (simp add: zeroSlot_def)

lemma wfSlot_count [simp]: "wfSlot (m\<lparr>count := c\<rparr>) = wfSlot m"
  by (simp add: fun_eq_iff wfSlot_def)

lemma topHash_nonzero [simp]: "hashmapTopHash hash \<noteq> 0"
  by (auto simp: hashmapTopHash_def Let_def word_less_1)

lemma topOf_nonzero [simp]: "topOf m key \<noteq> 0"
  by (simp add: topOf_def)

lemma homeOf_less: "wfTable m h \<Longrightarrow> homeOf m key < 2 ^ unat (bucketBits m)"
  by (simp add: homeOf_def bucketAddr_less wfTable_def)

lemma get_lookupValue:
  assumes wf: "wfTable m h" and lo: "length out = unat (valueSize m)"
  shows "hashmapGet (Some m) key out valueSz (hashOf m key) h =
     (case lookupValue m h key of
        Some v \<Rightarrow> (v, True)
      | None \<Rightarrow> (replicate (unat (valueSize m)) 0, False))"
proof (cases "firstIndex (matches m key (topOf m key)) (tslots m h (homeOf m key))")
  case None
  then show ?thesis
    using lo
    by (simp add: hashmapGet_def lookupValue_def lookupChain_eq tslots_def topOf_def homeOf_def
        Let_def)
next
  case (Some j)
  let ?ch = "chainAt h (buckets m) (homeOf m key)"
  have j: "j < 8 * length ?ch" using firstIndex_less [OF Some] by (simp add: tslots_def)
  have "tslots m h (homeOf m key) ! j \<in> set (tslots m h (homeOf m key))"
    using firstIndex_less [OF Some] by simp
  then have "wfSlot m (tslots m h (homeOf m key) ! j)"
    by (rule wfTable_slots [OF wf homeOf_less [OF wf]])
  then have len: "length (vals (?ch ! (j div 8)) ! (j mod 8)) = unat (valueSize m)"
    using j by (simp add: tslots_def chainSlots_nth slotAt_def wfSlot_def)
  show ?thesis
    using Some j len lo
    by (simp add: hashmapGet_def lookupValue_def lookupChain_eq tslots_def topOf_def homeOf_def
        Let_def chainSlots_nth slotAt_def)
qed

subsection \<open>List facts for one written slot\<close>

lemma firstIndex_update_hit:
  "firstIndex P xs = Some j \<Longrightarrow> P y \<Longrightarrow> firstIndex P (xs[j := y]) = Some j"
  by (auto simp: firstIndex_Some_iff nth_list_update)

lemma firstIndex_update_new:
  "firstIndex P xs = None \<Longrightarrow> e < length xs \<Longrightarrow> P y \<Longrightarrow> firstIndex P (xs[e := y]) = Some e"
  by (auto simp: firstIndex_Some_iff firstIndex_None_iff nth_list_update)

lemma firstIndex_append_new:
  "firstIndex P xs = None \<Longrightarrow> P y \<Longrightarrow> firstIndex P (xs @ y # ys) = Some (length xs)"
  by (simp add: firstIndex_append)

lemma firstIndex_append_none:
  "\<forall>y \<in> set ys. \<not> P y \<Longrightarrow> firstIndex P (xs @ ys) = firstIndex P xs"
  using firstIndex_None_iff [of P ys] by (simp add: firstIndex_append split: option.splits)

lemma class_hash:
  assumes "discipline m norm" "length key = unat (keySize m)" "length key1 = unat (keySize m)"
    "norm key1 = norm key" "norm key \<noteq> None"
  shows "hashOf m key1 = hashOf m key" "hashable m key1 = hashable m key"
proof -
  have "keyHash m key1 (keySize m) (seed m) = keyHash m key (keySize m) (seed m)"
    using assms unfolding discipline_def by metis
  then show "hashOf m key1 = hashOf m key" "hashable m key1 = hashable m key"
    by (simp_all add: hashOf_def hashable_def)
qed

lemma class_top_home:
  assumes "discipline m norm" "length key = unat (keySize m)" "length key1 = unat (keySize m)"
    "norm key1 = norm key" "norm key \<noteq> None"
  shows "topOf m key1 = topOf m key" "homeOf m key1 = homeOf m key"
  using class_hash(1) [OF assms] by (simp_all add: topOf_def homeOf_def)

lemma matches_class:
  assumes "discipline m norm" "length key = unat (keySize m)" "wfSlot m s"
  shows "matches m key th s \<longleftrightarrow>
           fst s = th \<and> norm key \<noteq> None \<and> norm key = norm (fst (snd s))"
proof -
  have "keyEqual m key (fst (snd s)) (keySize m)
      = (norm key \<noteq> None \<and> norm key = norm (fst (snd s)))"
    using assms unfolding discipline_def wfSlot_def by blast
  then show ?thesis by (simp add: matches_def)
qed

lemma matches_dead:
  assumes "discipline m norm" "length key = unat (keySize m)" "wfSlot m s" "norm key = None"
  shows "\<not> matches m key th s"
  using matches_class [OF assms(1-3)] assms(4) by simp

definition insertSlots :: "hashmap \<Rightarrow> bytes \<Rightarrow> bytes \<Rightarrow> u8 \<Rightarrow> slot list \<Rightarrow> slot list" where
  "insertSlots m key val th S =
     (case firstIndex (matches m key th) S of
        Some j \<Rightarrow> S[j := (fst (S ! j), fst (snd (S ! j)), val)]
      | None \<Rightarrow>
          (case firstIndex emptySlot S of
             Some e \<Rightarrow> S[e := (th, key, val)]
           | None \<Rightarrow> S @ (th, key, val) # replicate 7 (zeroSlot m)))"

definition slotLookup :: "(slot \<Rightarrow> bool) \<Rightarrow> slot list \<Rightarrow> bytes option" where
  "slotLookup P S = map_option (\<lambda>j. snd (snd (S ! j))) (firstIndex P S)"

lemma lookupValue_slotLookup:
  "lookupValue m h key = slotLookup (matches m key (topOf m key)) (tslots m h (homeOf m key))"
  by (simp add: lookupValue_def slotLookup_def split: option.splits)

lemma setInsert_spec:
  assumes wf: "wfTable m h" and lk: "length key = unat (keySize m)"
    and lv: "length val = unat (valueSize m)"
  shows "\<exists>h1. hashmapSetInsert m key val hash h =
       (m\<lparr>count := count m +
          (if firstIndex (matches m key (hashmapTopHash hash))
                (tslots m h (hashmapBucketAddrForHash m hash)) = None then 1 else 0)\<rparr>, h1) \<and>
     wfTable m h1 \<and> sameOutside (buckets m) h h1 \<and>
     tslots m h1 = (tslots m h)(hashmapBucketAddrForHash m hash :=
        insertSlots m key val (hashmapTopHash hash)
          (tslots m h (hashmapBucketAddrForHash m hash)))"
proof (cases "firstIndex (matches m key (hashmapTopHash hash))
      (tslots m h (hashmapBucketAddrForHash m hash))")
  case (Some j)
  from set_found [OF wf lv Some] Some show ?thesis by (simp add: insertSlots_def)
next
  case None
  show ?thesis
  proof (cases "firstIndex emptySlot (tslots m h (hashmapBucketAddrForHash m hash))")
    case (Some e)
    from set_empty [OF wf lv lk None Some] None Some show ?thesis by (simp add: insertSlots_def)
  next
    case N2: None
    from set_full [OF wf lv lk None N2] None N2 show ?thesis by (simp add: insertSlots_def)
  qed
qed

lemma slotLookup_insert_same:
  assumes P: "P (th, key, val)"
    and ind: "\<And>t k v v1. P (t, k, v) = P (t, k, v1)"
    and that: "firstIndex (matches m key th) S = firstIndex P S"
  shows "slotLookup P (insertSlots m key val th S) = Some val"
proof (cases "firstIndex P S")
  case (Some j)
  then have j: "j < length S" "P (S ! j)" by (simp_all add: firstIndex_Some_iff)
  have "P (fst (S ! j), fst (snd (S ! j)), val)"
    using j(2) ind [of "fst (S ! j)" "fst (snd (S ! j))" val "snd (snd (S ! j))"] by simp
  from firstIndex_update_hit [OF Some this] Some that j show ?thesis
    by (simp add: insertSlots_def slotLookup_def)
next
  case None
  show ?thesis
  proof (cases "firstIndex emptySlot S")
    case (Some e)
    then have e: "e < length S" by (rule firstIndex_less)
    from firstIndex_update_new [OF None e P] None Some that e show ?thesis
      by (simp add: insertSlots_def slotLookup_def)
  next
    case N2: None
    from firstIndex_append_new [OF None P] None N2 that show ?thesis
      by (simp add: insertSlots_def slotLookup_def)
  qed
qed

lemma slotLookup_update_other:
  assumes "j < length S" "\<not> P (S ! j)" "\<not> P y"
  shows "slotLookup P (S[j := y]) = slotLookup P S"
proof -
  have fi: "firstIndex P (S[j := y]) = firstIndex P S"
    using assms by (intro firstIndex_update_same) simp_all
  show ?thesis
  proof (cases "firstIndex P S")
    case None
    with fi show ?thesis by (simp add: slotLookup_def)
  next
    case (Some k)
    then have "P (S ! k)" by (simp add: firstIndex_Some_iff)
    with assms(2) have "k \<noteq> j" by auto
    with fi Some show ?thesis by (simp add: slotLookup_def)
  qed
qed

lemma slotLookup_append_other:
  assumes "\<forall>y \<in> set ys. \<not> P y"
  shows "slotLookup P (S @ ys) = slotLookup P S"
proof -
  have fi: "firstIndex P (S @ ys) = firstIndex P S"
    using assms by (rule firstIndex_append_none)
  show ?thesis
  proof (cases "firstIndex P S")
    case None
    with fi show ?thesis by (simp add: slotLookup_def)
  next
    case (Some k)
    then have "k < length S" by (rule firstIndex_less)
    with fi Some show ?thesis by (simp add: slotLookup_def nth_append)
  qed
qed

lemma slotLookup_insert_other:
  assumes new: "\<not> P (th, key, val)"
    and emp: "\<And>s. fst s = 0 \<Longrightarrow> \<not> P s"
    and oth: "\<And>s. s \<in> set S \<Longrightarrow> matches m key th s \<Longrightarrow> \<not> P s"
    and ind: "\<And>t k v v1. P (t, k, v) = P (t, k, v1)"
  shows "slotLookup P (insertSlots m key val th S) = slotLookup P S"
proof (cases "firstIndex (matches m key th) S")
  case (Some j)
  then have j: "j < length S" "matches m key th (S ! j)" by (simp_all add: firstIndex_Some_iff)
  have a: "\<not> P (S ! j)" using oth j by simp
  then have "\<not> P (fst (S ! j), fst (snd (S ! j)), val)"
    using ind [of "fst (S ! j)" "fst (snd (S ! j))" val "snd (snd (S ! j))"] by simp
  from slotLookup_update_other [OF j(1) a this] Some show ?thesis by (simp add: insertSlots_def)
next
  case None
  show ?thesis
  proof (cases "firstIndex emptySlot S")
    case (Some e)
    then have e: "e < length S" "emptySlot (S ! e)" by (simp_all add: firstIndex_Some_iff)
    then have "\<not> P (S ! e)" using emp by (simp add: emptySlot_def)
    from slotLookup_update_other [OF e(1) this new] None Some show ?thesis
      by (simp add: insertSlots_def)
  next
    case N2: None
    have "\<forall>y \<in> set ((th, key, val) # replicate 7 (zeroSlot m)). \<not> P y"
      using new emp by (auto simp: zeroSlot_def)
    from slotLookup_append_other [OF this] None N2 show ?thesis by (simp add: insertSlots_def)
  qed
qed


lemma matches_value_irrelevant: "matches m key th (t, k, v) = matches m key th (t, k, v1)"
  by (simp add: matches_def)

lemma setInsert_lookup:
  assumes wf: "wfTable m h" and disc: "discipline m norm"
    and lk: "length key = unat (keySize m)" and lv: "length val = unat (valueSize m)"
    and lk1: "length key1 = unat (keySize m)"
    and res: "hashmapSetInsert m key val (hashOf m key) h = (m1, h1)"
  shows "lookupValue m1 h1 key1 =
     (if norm key \<noteq> None \<and> norm key1 = norm key then Some val else lookupValue m h key1)"
proof -
  let ?n = "homeOf m key" and ?th = "topOf m key"
  let ?S = "tslots m h ?n"
  let ?P1 = "matches m key1 (topOf m key1)"
  from setInsert_spec [OF wf lk lv, of "hashOf m key"] res
  obtain c where m1: "m1 = m\<lparr>count := c\<rparr>"
    and ts: "tslots m h1 = (tslots m h)(?n := insertSlots m key val ?th ?S)"
    by (auto simp: homeOf_def topOf_def)
  have wfS: "\<And>s. s \<in> set ?S \<Longrightarrow> wfSlot m s"
    by (rule wfTable_slots [OF wf homeOf_less [OF wf]])
  have lv1: "lookupValue m1 h1 key1 = slotLookup ?P1 (tslots m h1 (homeOf m key1))"
    by (simp add: m1 lookupValue_slotLookup)
  show ?thesis
  proof (cases "norm key \<noteq> None \<and> norm key1 = norm key")
    case True
    then have eq: "norm key1 = norm key" and live: "norm key \<noteq> None" by simp_all
    note th = class_top_home [OF disc lk lk1 eq live]
    have new: "?P1 (?th, key, val)"
      using matches_class [OF disc lk1, of "(?th, key, val)" "topOf m key1"] lk lv True th
      by (simp add: wfSlot_def)
    have "\<And>s. s \<in> set ?S \<Longrightarrow> matches m key ?th s = ?P1 s"
      using matches_class [OF disc lk wfS] matches_class [OF disc lk1 wfS] True th by simp
    then have fi: "firstIndex (matches m key ?th) ?S = firstIndex ?P1 ?S"
      by (rule firstIndex_cong)
    have "slotLookup ?P1 (insertSlots m key val ?th ?S) = Some val"
      using new matches_value_irrelevant fi by (rule slotLookup_insert_same)
    then show ?thesis using True unfolding lv1 by (simp add: ts th)
  next
    case False
    show ?thesis
    proof (cases "homeOf m key1 = ?n")
      case H: False
      then show ?thesis using False unfolding lv1 by (auto simp add: ts lookupValue_slotLookup)
    next
      case H: True
      have new: "\<not> ?P1 (?th, key, val)"
        using matches_class [OF disc lk1, of "(?th, key, val)" "topOf m key1"] lk lv False
        by (auto simp add: wfSlot_def)
      have emp: "\<And>s. fst s = 0 \<Longrightarrow> \<not> ?P1 s"
        by (auto simp: matches_def)
      have oth: "\<And>s. s \<in> set ?S \<Longrightarrow> matches m key ?th s \<Longrightarrow> \<not> ?P1 s"
        using matches_class [OF disc lk wfS] matches_class [OF disc lk1 wfS] False by auto
      have "slotLookup ?P1 (insertSlots m key val ?th ?S) = slotLookup ?P1 ?S"
        using new emp oth matches_value_irrelevant by (rule slotLookup_insert_other)
      then show ?thesis using False H unfolding lv1 by (auto simp add: ts lookupValue_slotLookup)
    qed
  qed
qed

section \<open>Entries of a table\<close>

definition occM :: "slot list \<Rightarrow> slot multiset" where
  "occM S = filter_mset occupied (mset S)"

definition entriesM :: "hashmap \<Rightarrow> memory \<Rightarrow> slot multiset" where
  "entriesM m h = (\<Sum>n<2 ^ unat (bucketBits m). occM (tslots m h n))"

definition keyClass :: "(bytes \<Rightarrow> 'c option) \<Rightarrow> slot \<Rightarrow> 'c option" where
  "keyClass norm s = norm (fst (snd s))"

text \<open>The classes of the entries whose key equals itself, with multiplicity.\<close>

definition classesM :: "(bytes \<Rightarrow> 'c option) \<Rightarrow> slot multiset \<Rightarrow> 'c option multiset" where
  "classesM norm M = image_mset (keyClass norm) (filter_mset (\<lambda>s. keyClass norm s \<noteq> None) M)"

definition distinctM :: "'a multiset \<Rightarrow> bool" where
  "distinctM M \<longleftrightarrow> (\<forall>x. multiset.count M x \<le> 1)"

text \<open>
  Every occupied slot holds a key the hash function returns on, sits in the chain of
  the key's home bucket and carries the key's tophash.
\<close>

definition placed :: "hashmap \<Rightarrow> memory \<Rightarrow> bool" where
  "placed m h \<longleftrightarrow>
     (\<forall>n < 2 ^ unat (bucketBits m). \<forall>s \<in> set (tslots m h n).
        occupied s \<longrightarrow>
          hashable m (fst (snd s)) \<and> fst s = topOf m (fst (snd s)) \<and>
          homeOf m (fst (snd s)) = n)"

text \<open>
  The invariant of a table: it is well formed, its entries are placed, no two entries
  hold equal keys, \<open>count\<close> is the number of entries, and below the growth ceiling the
  table is at most one entry over the load factor.
\<close>

definition tableInv :: "hashmap \<Rightarrow> (bytes \<Rightarrow> 'c option) \<Rightarrow> memory \<Rightarrow> bool" where
  "tableInv m norm h \<longleftrightarrow>
     wfTable m h \<and> discipline m norm \<and> placed m h \<and>
     distinctM (classesM norm (entriesM m h)) \<and>
     count m = of_nat (size (entriesM m h)) \<and>
     (unat (bucketBits m) \<le> 61 \<longrightarrow> size (entriesM m h) \<le> 6 * 2 ^ unat (bucketBits m) + 1)"

lemma entriesM_count [simp]: "entriesM (m\<lparr>count := c\<rparr>) h = entriesM m h"
  by (simp add: entriesM_def)

lemma placed_count [simp]: "placed (m\<lparr>count := c\<rparr>) h = placed m h"
  by (simp add: placed_def)

lemma classesM_add:
  "classesM norm (add_mset s M) =
     (if keyClass norm s \<noteq> None then add_mset (keyClass norm s) (classesM norm M)
      else classesM norm M)"
  by (simp add: classesM_def)

lemma classesM_union [simp]: "classesM norm (M + N) = classesM norm M + classesM norm N"
  by (simp add: classesM_def)

lemma classesM_empty [simp]: "classesM norm {#} = {#}"
  by (simp add: classesM_def)

lemma classesM_member:
  "c \<in># classesM norm M \<longleftrightarrow> c \<noteq> None \<and> (\<exists>s. s \<in># M \<and> keyClass norm s = c)"
proof
  assume "c \<in># classesM norm M"
  then show "c \<noteq> None \<and> (\<exists>s. s \<in># M \<and> keyClass norm s = c)"
    by (auto simp: classesM_def)
next
  assume "c \<noteq> None \<and> (\<exists>s. s \<in># M \<and> keyClass norm s = c)"
  then obtain s where "s \<in># M" "keyClass norm s = c" "c \<noteq> None" by blast
  then have "s \<in># filter_mset (\<lambda>s. keyClass norm s \<noteq> None) M" by simp
  then have "keyClass norm s \<in> keyClass norm ` set_mset (filter_mset (\<lambda>s. keyClass norm s \<noteq> None) M)"
    by (rule imageI)
  then have "keyClass norm s \<in># classesM norm M" by (simp only: classesM_def in_image_mset)
  then show "c \<in># classesM norm M" using \<open>keyClass norm s = c\<close> by simp
qed

lemma classesM_mono: "N \<subseteq># M \<Longrightarrow> classesM norm N \<subseteq># classesM norm M"
  unfolding classesM_def by (intro image_mset_subseteq_mono multiset_filter_mono)

lemma classesM_same_key:
  "fst (snd s) = fst (snd t) \<Longrightarrow> classesM norm (add_mset s M) = classesM norm (add_mset t M)"
  by (simp add: classesM_add keyClass_def)

lemma occM_member: "s \<in># occM S \<longleftrightarrow> s \<in> set S \<and> occupied s"
  by (auto simp: occM_def)

lemma entriesM_member:
  "s \<in># entriesM m h \<longleftrightarrow> (\<exists>n < 2 ^ unat (bucketBits m). s \<in> set (tslots m h n) \<and> occupied s)"
  unfolding entriesM_def by (auto simp: set_mset_sum occM_member)

lemma sum_split_at:
  fixes F :: "nat \<Rightarrow> 'a::comm_monoid_add"
  assumes "n < N"
  shows "(\<Sum>k<N. F k) = F n + (\<Sum>k \<in> {..<N} - {n}. F k)"
  using assms by (subst sum.remove [of _ n]) simp_all

lemma entriesM_split:
  assumes "n < 2 ^ unat (bucketBits m)"
  shows "entriesM m h =
     occM (tslots m h n) + (\<Sum>k \<in> {..<2 ^ unat (bucketBits m)} - {n}. occM (tslots m h k))"
  unfolding entriesM_def using assms by (rule sum_split_at)

lemma entriesM_update:
  assumes n: "n < 2 ^ unat (bucketBits m)" and ts: "tslots m h1 = (tslots m h)(n := S1)"
  shows "entriesM m h1 =
     occM S1 + (\<Sum>k \<in> {..<2 ^ unat (bucketBits m)} - {n}. occM (tslots m h k))"
proof -
  have "entriesM m h1 =
     occM (tslots m h1 n) + (\<Sum>k \<in> {..<2 ^ unat (bucketBits m)} - {n}. occM (tslots m h1 k))"
    using n by (rule entriesM_split)
  also have "(\<Sum>k \<in> {..<2 ^ unat (bucketBits m)} - {n}. occM (tslots m h1 k)) =
     (\<Sum>k \<in> {..<2 ^ unat (bucketBits m)} - {n}. occM (tslots m h k))"
    by (rule sum.cong) (simp_all add: ts)
  finally show ?thesis by (simp add: ts)
qed

lemma occM_update:
  "j < length S \<Longrightarrow>
   occM (S[j := y]) =
     (if occupied y then {#y#} else {#}) + (occM S - (if occupied (S ! j) then {#S ! j#} else {#}))"
  by (simp add: occM_def mset_update filter_diff_mset)

lemma zeroSlot_not_occupied [simp]: "\<not> occupied (zeroSlot m)"
  by (simp add: occupied_def zeroSlot_def)

lemma occM_append_new:
  "occupied y \<Longrightarrow> occM (S @ y # replicate k (zeroSlot m)) = add_mset y (occM S)"
  by (simp add: occM_def)

lemma occM_insert:
  assumes th: "th \<noteq> 0"
  shows "occM (insertSlots m key val th S) =
     (case firstIndex (matches m key th) S of
        Some j \<Rightarrow> add_mset (fst (S ! j), fst (snd (S ! j)), val) (occM S - {#S ! j#})
      | None \<Rightarrow> add_mset (th, key, val) (occM S))"
proof (cases "firstIndex (matches m key th) S")
  case (Some j)
  then have j: "j < length S" "matches m key th (S ! j)" by (simp_all add: firstIndex_Some_iff)
  then have "occupied (S ! j)" using th by (simp add: matches_def occupied_def)
  then show ?thesis using Some j(1) by (simp add: insertSlots_def occM_update occupied_def)
next
  case None
  show ?thesis
  proof (cases "firstIndex emptySlot S")
    case (Some e)
    then have e: "e < length S" "emptySlot (S ! e)" by (simp_all add: firstIndex_Some_iff)
    then show ?thesis
      using None Some th by (simp add: insertSlots_def occM_update occupied_def emptySlot_def)
  next
    case N2: None
    show ?thesis
      using None N2 th by (simp add: insertSlots_def occM_append_new occupied_def)
  qed
qed

lemma distinctM_add: "distinctM (add_mset x M) \<longleftrightarrow> distinctM M \<and> x \<notin># M"
proof
  assume d: "distinctM (add_mset x M)"
  have "multiset.count M x = 0"
    using d [unfolded distinctM_def, rule_format, of x] by simp
  moreover have "distinctM M"
    unfolding distinctM_def
  proof
    fix y show "multiset.count M y \<le> 1"
      using d [unfolded distinctM_def, rule_format, of y] by (simp split: if_splits)
  qed
  ultimately show "distinctM M \<and> x \<notin># M" by (simp add: count_eq_zero_iff)
next
  assume "distinctM M \<and> x \<notin># M"
  then show "distinctM (add_mset x M)"
    by (auto simp: distinctM_def count_eq_zero_iff)
qed

lemma distinctM_subset: "distinctM M \<Longrightarrow> N \<subseteq># M \<Longrightarrow> distinctM N"
  unfolding distinctM_def by (meson le_trans mset_subset_eq_count)

lemma distinctM_diff: "distinctM M \<Longrightarrow> distinctM (M - N)"
  unfolding distinctM_def by (metis count_diff diff_le_self le_trans)

lemma distinctM_empty [simp]: "distinctM {#}"
  by (simp add: distinctM_def)

lemma distinctM_card: "distinctM (image_mset f M) \<Longrightarrow> card (f ` set_mset M) = size M"
proof (induction M)
  case empty
  then show ?case by simp
next
  case (add x M)
  then have d: "distinctM (image_mset f M)" "f x \<notin> f ` set_mset M"
    by (simp_all add: distinctM_add)
  then show ?case using add.IH by simp
qed

lemma insertSlots_members:
  assumes "s \<in> set (insertSlots m key val th S)" "occupied s"
  shows "(\<exists>s0 \<in> set S. occupied s0 \<and> fst s = fst s0 \<and> fst (snd s) = fst (snd s0)) \<or>
     (fst s = th \<and> fst (snd s) = key)"
proof (cases "firstIndex (matches m key th) S")
  case (Some j)
  then have j: "j < length S" by (rule firstIndex_less)
  from assms(1) Some have "s \<in> insert (fst (S ! j), fst (snd (S ! j)), val) (set S)"
    using set_update_subset_insert [of S j] by (auto simp: insertSlots_def)
  then show ?thesis
  proof
    assume e: "s = (fst (S ! j), fst (snd (S ! j)), val)"
    then have "occupied (S ! j)" using assms(2) by (simp add: occupied_def)
    with e j show ?thesis by (intro disjI1 bexI [of _ "S ! j"]) simp_all
  next
    assume "s \<in> set S"
    with assms(2) show ?thesis by blast
  qed
next
  case None
  show ?thesis
  proof (cases "firstIndex emptySlot S")
    case (Some e)
    from assms(1) None Some have "s \<in> insert (th, key, val) (set S)"
      using set_update_subset_insert [of S e] by (auto simp: insertSlots_def)
    with assms(2) show ?thesis by auto
  next
    case N2: None
    from assms(1) None N2 have "s \<in> set S \<or> s = (th, key, val) \<or> s = zeroSlot m"
      by (auto simp: insertSlots_def)
    with assms(2) show ?thesis by auto
  qed
qed

lemma entry_class_match:
  assumes wf: "wfTable m h" and disc: "discipline m norm" and pl: "placed m h"
    and lk: "length key = unat (keySize m)"
    and s: "s \<in># entriesM m h" and c: "keyClass norm s = norm key"
    and live: "norm key \<noteq> None"
  shows "s \<in> set (tslots m h (homeOf m key)) \<and> matches m key (topOf m key) s"
proof -
  from s obtain n where n: "n < 2 ^ unat (bucketBits m)" "s \<in> set (tslots m h n)" "occupied s"
    by (auto simp: entriesM_member)
  have ws: "wfSlot m s" using wf n(1) n(2) by (rule wfTable_slots)
  then have ls: "length (fst (snd s)) = unat (keySize m)" by (simp add: wfSlot_def)
  have cc: "norm (fst (snd s)) = norm key" using c by (simp add: keyClass_def)
  note th = class_top_home [OF disc lk ls cc live]
  from pl n have p: "fst s = topOf m (fst (snd s))" "homeOf m (fst (snd s)) = n"
    by (auto simp: placed_def)
  have "matches m key (topOf m key) s"
    using matches_class [OF disc lk ws] p th cc live by simp
  with n p th show ?thesis by simp
qed

lemma setInsert_entries:
  assumes wf: "wfTable m h" and lk: "length key = unat (keySize m)"
    and lv: "length val = unat (valueSize m)"
    and res: "hashmapSetInsert m key val (hashOf m key) h = (m1, h1)"
  shows "m1 = m\<lparr>count := count m +
          (if firstIndex (matches m key (topOf m key)) (tslots m h (homeOf m key)) = None
           then 1 else 0)\<rparr>"
    and "wfTable m h1" and "sameOutside (buckets m) h h1"
    and "tslots m h1 = (tslots m h)(homeOf m key :=
          insertSlots m key val (topOf m key) (tslots m h (homeOf m key)))"
    and "entriesM m h1 =
      (case firstIndex (matches m key (topOf m key)) (tslots m h (homeOf m key)) of
         Some j \<Rightarrow>
           add_mset (fst (tslots m h (homeOf m key) ! j),
                     fst (snd (tslots m h (homeOf m key) ! j)), val)
             (entriesM m h - {#tslots m h (homeOf m key) ! j#})
       | None \<Rightarrow> add_mset (topOf m key, key, val) (entriesM m h))"
proof -
  let ?n = "homeOf m key" and ?th = "topOf m key"
  let ?S = "tslots m h ?n"
  let ?R = "(\<Sum>k \<in> {..<2 ^ unat (bucketBits m)} - {?n}. occM (tslots m h k))"
  from setInsert_spec [OF wf lk lv, of "hashOf m key"] res
  show m1: "m1 = m\<lparr>count := count m + (if firstIndex (matches m key ?th) ?S = None then 1 else 0)\<rparr>"
    and wf1: "wfTable m h1" and so: "sameOutside (buckets m) h h1"
    and ts: "tslots m h1 = (tslots m h)(?n := insertSlots m key val ?th ?S)"
    by (auto simp: homeOf_def topOf_def)
  have n: "?n < 2 ^ unat (bucketBits m)" using wf by (rule homeOf_less)
  have e0: "entriesM m h = occM ?S + ?R" using n by (rule entriesM_split)
  have e1: "entriesM m h1 = occM (insertSlots m key val ?th ?S) + ?R"
    using n ts by (rule entriesM_update)
  show "entriesM m h1 =
      (case firstIndex (matches m key ?th) ?S of
         Some j \<Rightarrow> add_mset (fst (?S ! j), fst (snd (?S ! j)), val) (entriesM m h - {#?S ! j#})
       | None \<Rightarrow> add_mset (?th, key, val) (entriesM m h))"
  proof (cases "firstIndex (matches m key ?th) ?S")
    case None
    then show ?thesis by (simp add: e0 e1 occM_insert)
  next
    case (Some j)
    then have j: "j < length ?S" "matches m key ?th (?S ! j)" by (simp_all add: firstIndex_Some_iff)
    then have "occupied (?S ! j)" by (simp add: matches_def occupied_def)
    then have "?S ! j \<in># occM ?S" using j(1) by (simp add: occM_member)
    then show ?thesis using Some by (simp add: e0 e1 occM_insert)
  qed
qed

lemma setInsert_inv:
  assumes inv: "tableInv m norm h" and lk: "length key = unat (keySize m)"
    and lv: "length val = unat (valueSize m)"
    and hk: "hashable m key"
    and load: "unat (bucketBits m) \<le> 61 \<longrightarrow> size (entriesM m h) \<le> 6 * 2 ^ unat (bucketBits m)"
    and res: "hashmapSetInsert m key val (hashOf m key) h = (m1, h1)"
  shows "tableInv m1 norm h1"
proof -
  let ?n = "homeOf m key" and ?th = "topOf m key"
  let ?S = "tslots m h ?n"
  let ?f = "keyClass norm"
  from inv have wf: "wfTable m h" and disc: "discipline m norm" and pl: "placed m h"
    and dist: "distinctM (classesM norm (entriesM m h))"
    and cnt: "count m = of_nat (size (entriesM m h))"
    by (simp_all add: tableInv_def)
  note r = setInsert_entries [OF wf lk lv res]
  have n: "?n < 2 ^ unat (bucketBits m)" using wf by (rule homeOf_less)
  have wfS: "\<And>s. s \<in> set ?S \<Longrightarrow> wfSlot m s" by (rule wfTable_slots [OF wf n])
  have pl1: "placed m h1"
    unfolding placed_def
  proof (intro allI impI ballI)
    fix k s assume k: "k < 2 ^ unat (bucketBits m)" and s: "s \<in> set (tslots m h1 k)" "occupied s"
    show "hashable m (fst (snd s)) \<and> fst s = topOf m (fst (snd s)) \<and>
        homeOf m (fst (snd s)) = k"
    proof (cases "k = ?n")
      case False
      with s k pl show ?thesis by (simp add: r(4) placed_def)
    next
      case True
      with s have "s \<in> set (insertSlots m key val ?th ?S)" by (simp add: r(4))
      from insertSlots_members [OF this s(2)] show ?thesis
      proof
        assume "\<exists>s0 \<in> set ?S. occupied s0 \<and> fst s = fst s0 \<and> fst (snd s) = fst (snd s0)"
        then obtain s0 where s0: "s0 \<in> set ?S" "occupied s0" "fst s = fst s0"
          "fst (snd s) = fst (snd s0)" by blast
        from pl n s0(1,2) have "hashable m (fst (snd s0)) \<and>
            fst s0 = topOf m (fst (snd s0)) \<and> homeOf m (fst (snd s0)) = ?n"
          unfolding placed_def by blast
        then show ?thesis using s0(3,4) True by simp
      next
        assume "fst s = ?th \<and> fst (snd s) = key"
        then show ?thesis using True hk by simp
      qed
    qed
  qed
  have rest: "distinctM (classesM norm (entriesM m h1)) \<and>
      size (entriesM m h1) = size (entriesM m h) +
        (if firstIndex (matches m key ?th) ?S = None then 1 else 0)"
  proof (cases "firstIndex (matches m key ?th) ?S")
    case None
    have "norm key \<notin># classesM norm (entriesM m h)"
    proof
      assume "norm key \<in># classesM norm (entriesM m h)"
      then obtain s where s: "s \<in># entriesM m h" "?f s = norm key" and live: "norm key \<noteq> None"
        by (auto simp: classesM_member)
      from entry_class_match [OF wf disc pl lk s live] None show False
        by (auto simp: firstIndex_None_iff)
    qed
    then show ?thesis using None dist
      by (simp add: r(5) classesM_add distinctM_add keyClass_def)
  next
    case (Some j)
    then have j: "j < length ?S" "matches m key ?th (?S ! j)" by (simp_all add: firstIndex_Some_iff)
    then have "occupied (?S ! j)" by (simp add: matches_def occupied_def)
    then have mem: "?S ! j \<in># entriesM m h" using j(1) n by (auto simp: entriesM_member)
    let ?s1 = "(fst (?S ! j), fst (snd (?S ! j)), val)"
    have "classesM norm (add_mset ?s1 (entriesM m h - {#?S ! j#})) =
        classesM norm (add_mset (?S ! j) (entriesM m h - {#?S ! j#}))"
      by (rule classesM_same_key) simp
    also have "\<dots> = classesM norm (entriesM m h)" using mem by simp
    moreover have "entriesM m h \<noteq> {#}" using mem by auto
    then have "0 < size (entriesM m h)" by (simp add: nonempty_has_size)
    ultimately show ?thesis using Some dist mem by (simp add: r(5) size_Diff_singleton)
  qed
  have cnt1: "count m1 = of_nat (size (entriesM m h1))"
    using rest cnt by (simp add: r(1))
  have load1: "unat (bucketBits m) \<le> 61 \<longrightarrow> size (entriesM m h1) \<le> 6 * 2 ^ unat (bucketBits m) + 1"
    using rest load by auto
  have m1c: "m1 = m\<lparr>count := count m1\<rparr>" by (simp add: r(1))
  have "tableInv (m\<lparr>count := count m1\<rparr>) norm h1"
    unfolding tableInv_def using r(2) disc pl1 rest cnt1 load1 by simp
  with m1c show ?thesis by simp
qed

lemma delete_entries:
  assumes wf: "wfTable m h"
    and res: "hashmapDelete (Some m) key (hashOf m key) h = (mo, h1)"
  shows "(case firstIndex (matches m key (topOf m key)) (tslots m h (homeOf m key)) of
       None \<Rightarrow> mo = Some m \<and> h1 = h
     | Some j \<Rightarrow>
         mo = Some (m\<lparr>count := count m - 1\<rparr>) \<and> wfTable m h1 \<and>
         sameOutside (buckets m) h h1 \<and>
         tslots m h1 = (tslots m h)(homeOf m key := (tslots m h (homeOf m key))[j := zeroSlot m]) \<and>
         tslots m h (homeOf m key) ! j \<in># entriesM m h \<and>
         entriesM m h1 = entriesM m h - {#tslots m h (homeOf m key) ! j#})"
proof (cases "firstIndex (matches m key (topOf m key)) (tslots m h (homeOf m key))")
  case None
  from delete_none [of m key "hashOf m key" h] None res show ?thesis
    by (simp add: topOf_def homeOf_def)
next
  case (Some j)
  let ?n = "homeOf m key"
  let ?S = "tslots m h ?n"
  let ?R = "(\<Sum>k \<in> {..<2 ^ unat (bucketBits m)} - {?n}. occM (tslots m h k))"
  from delete_some [OF wf, of key "hashOf m key" j] Some res
  have mo: "mo = Some (m\<lparr>count := count m - 1\<rparr>)" and wf1: "wfTable m h1"
    and so: "sameOutside (buckets m) h h1"
    and ts: "tslots m h1 = (tslots m h)(?n := ?S[j := zeroSlot m])"
    by (auto simp: topOf_def homeOf_def)
  have n: "?n < 2 ^ unat (bucketBits m)" using wf by (rule homeOf_less)
  have j: "j < length ?S" "matches m key (topOf m key) (?S ! j)"
    using Some by (simp_all add: firstIndex_Some_iff)
  then have oc: "occupied (?S ! j)" by (simp add: matches_def occupied_def)
  then have mem: "?S ! j \<in># occM ?S" using j(1) by (simp add: occM_member)
  have e0: "entriesM m h = occM ?S + ?R" using n by (rule entriesM_split)
  have e1: "entriesM m h1 = occM (?S[j := zeroSlot m]) + ?R" using n ts by (rule entriesM_update)
  have "entriesM m h1 = entriesM m h - {#?S ! j#}"
    using mem oc j(1) by (simp add: e0 e1 occM_update)
  moreover have "?S ! j \<in># entriesM m h" using mem by (simp add: e0)
  ultimately show ?thesis using Some mo wf1 so ts by simp
qed

lemma delete_inv:
  assumes inv: "tableInv m norm h" and lk: "length key = unat (keySize m)"
    and res: "hashmapDelete (Some m) key (hashOf m key) h = (mo, h1)"
  shows "\<exists>c. mo = Some (m\<lparr>count := c\<rparr>) \<and> tableInv (m\<lparr>count := c\<rparr>) norm h1"
proof -
  let ?n = "homeOf m key" and ?th = "topOf m key"
  let ?S = "tslots m h ?n"
  let ?f = "keyClass norm"
  from inv have wf: "wfTable m h" and disc: "discipline m norm" and pl: "placed m h"
    and dist: "distinctM (classesM norm (entriesM m h))"
    and cnt: "count m = of_nat (size (entriesM m h))"
    and load: "unat (bucketBits m) \<le> 61 \<longrightarrow> size (entriesM m h) \<le> 6 * 2 ^ unat (bucketBits m) + 1"
    by (simp_all add: tableInv_def)
  note r = delete_entries [OF wf res]
  show ?thesis
  proof (cases "firstIndex (matches m key ?th) ?S")
    case None
    with r inv show ?thesis by (intro exI [of _ "count m"]) simp
  next
    case (Some j)
    with r have mo: "mo = Some (m\<lparr>count := count m - 1\<rparr>)" and wf1: "wfTable m h1"
      and ts: "tslots m h1 = (tslots m h)(?n := ?S[j := zeroSlot m])"
      and mem: "?S ! j \<in># entriesM m h"
      and en: "entriesM m h1 = entriesM m h - {#?S ! j#}"
      by simp_all
    have n: "?n < 2 ^ unat (bucketBits m)" using wf by (rule homeOf_less)
    have pl1: "placed m h1"
      unfolding placed_def
    proof (intro allI impI ballI)
      fix k s assume k: "k < 2 ^ unat (bucketBits m)" and s: "s \<in> set (tslots m h1 k)" "occupied s"
      have "s \<in> set (tslots m h k)"
      proof (cases "k = ?n")
        case False
        with s show ?thesis by (simp add: ts)
      next
        case True
        with s have "s \<in> set (?S[j := zeroSlot m])" by (simp add: ts)
        then have "s \<in> insert (zeroSlot m) (set ?S)"
          using set_update_subset_insert [of ?S j "zeroSlot m"] by blast
        with s(2) True show ?thesis by auto
      qed
      with pl k s(2) show "hashable m (fst (snd s)) \<and> fst s = topOf m (fst (snd s)) \<and>
          homeOf m (fst (snd s)) = k"
        unfolding placed_def by blast
    qed
    have "entriesM m h \<noteq> {#}" using mem by auto
    then have pos: "0 < size (entriesM m h)" by (simp add: nonempty_has_size)
    have sz: "size (entriesM m h1) = size (entriesM m h) - 1"
      using mem by (simp add: en size_Diff_singleton)
    have "of_nat (size (entriesM m h) - 1) = (of_nat (size (entriesM m h)) :: uintptr) - 1"
      using pos by (simp add: of_nat_diff)
    then have cnt1: "count m - 1 = of_nat (size (entriesM m h1))" by (simp add: sz cnt)
    have "classesM norm (entriesM m h1) \<subseteq># classesM norm (entriesM m h)"
      unfolding en by (intro classesM_mono diff_subset_eq_self)
    with dist have d1: "distinctM (classesM norm (entriesM m h1))" by (rule distinctM_subset)
    have "tableInv (m\<lparr>count := count m - 1\<rparr>) norm h1"
      unfolding tableInv_def using wf1 disc pl1 d1 cnt1 load sz by auto
    with mo show ?thesis by blast
  qed
qed

section \<open>What an iteration visits\<close>

definition itInv :: "memory \<Rightarrow> nat \<Rightarrow> hashmapIterator \<Rightarrow> bool" where
  "itInv h a it \<longleftrightarrow>
     buckets_it it = Some a \<and>
     unat (numBuckets it) = length (arrays h a) \<and>
     unat (bucketNumber it) \<le> length (arrays h a) \<and>
     (case bucket it of
        None \<Rightarrow> unat (bucketIndex it) = 0
      | Some (n, p) \<Rightarrow>
          Suc n = unat (bucketNumber it) \<and> p < length (arrays h a ! n) \<and>
          unat (bucketIndex it) \<le> 8)"

definition remaining :: "memory \<Rightarrow> nat \<Rightarrow> hashmapIterator \<Rightarrow> slot list" where
  "remaining h a it =
     (case bucket it of
        None \<Rightarrow> []
      | Some (n, p) \<Rightarrow> drop (8 * p + unat (bucketIndex it)) (chainSlots (arrays h a ! n)))
     @ concat (map (\<lambda>n. chainSlots (arrays h a ! n))
         [unat (bucketNumber it)..<length (arrays h a)])"

lemma advance_fresh_chain:
  assumes inv: "itInv h a it" and ne: "\<forall>ch \<in> set (arrays h a). ch \<noteq> []"
    and b: "bucket it = None" and lt: "bucketNumber it < numBuckets it"
    and it2: "it2 = it\<lparr>bucket := Some (unat (bucketNumber it), 0),
                      bucketNumber := bucketNumber it + 1\<rparr>"
    and idx: "unat (bucketIndex it) = 0"
  shows "itInv h a it2" and "remaining h a it2 =
     chainSlots (arrays h a ! unat (bucketNumber it))
     @ concat (map (\<lambda>n. chainSlots (arrays h a ! n))
         [Suc (unat (bucketNumber it))..<length (arrays h a)])"
    and "remaining h a it = concat (map (\<lambda>n. chainSlots (arrays h a ! n))
         [unat (bucketNumber it)..<length (arrays h a)])"
proof -
  let ?bn = "unat (bucketNumber it)"
  from lt have l: "?bn < unat (numBuckets it)" by (simp add: word_less_nat_alt)
  then have l2: "?bn < length (arrays h a)" using inv by (simp add: itInv_def)
  have suc: "unat (bucketNumber it + 1) = Suc ?bn" using unat_succ_lt [OF lt] by simp
  have "arrays h a ! ?bn \<in> set (arrays h a)" using l2 by simp
  then have "arrays h a ! ?bn \<noteq> []" using ne by blast
  then show "itInv h a it2" using inv l2 suc idx by (auto simp: itInv_def it2)
  show "remaining h a it2 =
     chainSlots (arrays h a ! ?bn)
     @ concat (map (\<lambda>n. chainSlots (arrays h a ! n)) [Suc ?bn..<length (arrays h a)])"
    by (simp add: remaining_def it2 suc idx)
  show "remaining h a it = concat (map (\<lambda>n. chainSlots (arrays h a ! n))
         [?bn..<length (arrays h a)])"
    by (simp add: remaining_def b)
qed

lemma advance_spec:
  assumes inv: "itInv h a it" and ne: "\<forall>ch \<in> set (arrays h a). ch \<noteq> []"
  shows "\<exists>ex it2. hashmapNextAdvance h a it = Inr (ex, it2) \<and> itInv h a it2 \<and>
     remaining h a it2 = remaining h a it \<and>
     (if ex then remaining h a it = [] \<and> bucket it2 = None
      else bucket it2 \<noteq> None \<and> unat (bucketIndex it2) < 8)"
proof (cases "8 \<le> bucketIndex it")
  case True
  then have u: "8 \<le> unat (bucketIndex it)" by (simp add: word_le_nat_alt)
  with inv obtain n p where b: "bucket it = Some (n, p)"
    by (cases "bucket it") (auto simp: itInv_def)
  with inv u have i8: "unat (bucketIndex it) = 8" and np: "Suc n = unat (bucketNumber it)"
    "p < length (arrays h a ! n)" by (auto simp: itInv_def)
  let ?it1 = "it\<lparr>bucketIndex := 0, bucket := bucketNext h a (n, p)\<rparr>"
  show ?thesis
  proof (cases "Suc p < length (arrays h a ! n)")
    case L: True
    then have nx: "bucketNext h a (n, p) = Some (n, Suc p)"
      by (simp add: bucketNext_def chainAt_def)
    have adv: "hashmapNextAdvance h a it = Inr (False, ?it1)"
      using True b nx by (simp add: hashmapNextAdvance_def)
    have "itInv h a ?it1" using inv np L by (simp add: itInv_def nx)
    moreover have "remaining h a ?it1 = remaining h a it"
      by (simp add: remaining_def nx b i8 add.commute)
    ultimately show ?thesis using adv nx by (intro exI [of _ False] exI [of _ ?it1]) simp
  next
    case L: False
    then have nx: "bucketNext h a (n, p) = None"
      by (simp add: bucketNext_def chainAt_def)
    have dr: "drop (8 * p + 8) (chainSlots (arrays h a ! n)) = []"
      using L np by simp
    have r1: "remaining h a ?it1 = remaining h a it"
      by (simp add: remaining_def nx b i8 dr)
    have inv1: "itInv h a ?it1" using inv by (simp add: itInv_def nx)
    show ?thesis
    proof (cases "numBuckets it \<le> bucketNumber it")
      case E: True
      then have adv: "hashmapNextAdvance h a it = Inr (True, ?it1)"
        using True b nx by (simp add: hashmapNextAdvance_def)
      from E inv have "length (arrays h a) \<le> unat (bucketNumber it)"
        by (simp add: word_le_nat_alt itInv_def)
      then have "remaining h a it = []" by (simp add: remaining_def b i8 dr)
      with adv inv1 r1 nx show ?thesis by (intro exI [of _ True] exI [of _ ?it1]) simp
    next
      case E: False
      let ?it2 = "?it1\<lparr>bucket := Some (unat (bucketNumber ?it1), 0),
                      bucketNumber := bucketNumber ?it1 + 1\<rparr>"
      have adv: "hashmapNextAdvance h a it = Inr (False, ?it2)"
        using True b nx E by (simp add: hashmapNextAdvance_def)
      have lt: "bucketNumber ?it1 < numBuckets ?it1" using E by simp
      have b1: "bucket ?it1 = None" by (simp add: nx)
      have i1: "unat (bucketIndex ?it1) = 0" by simp
      note f = advance_fresh_chain [OF inv1 ne b1 lt refl i1]
      have "itInv h a ?it2" by (rule f(1))
      moreover have "remaining h a ?it2 = remaining h a ?it1"
        using E inv unfolding f(2) f(3)
        by (simp add: upt_conv_Cons word_le_nat_alt itInv_def not_le)
      ultimately show ?thesis using adv r1 by (intro exI [of _ False] exI [of _ ?it2]) simp
    qed
  qed
next
  case False
  then have u: "unat (bucketIndex it) < 8" by (simp add: word_le_nat_alt)
  show ?thesis
  proof (cases "bucket it")
    case (Some q)
    then have adv: "hashmapNextAdvance h a it = Inr (False, it)"
      using False by (simp add: hashmapNextAdvance_def)
    with inv u Some show ?thesis by (intro exI [of _ False] exI [of _ it]) simp
  next
    case None
    show ?thesis
    proof (cases "numBuckets it \<le> bucketNumber it")
      case E: True
      then have adv: "hashmapNextAdvance h a it = Inr (True, it)"
        using False None by (simp add: hashmapNextAdvance_def)
      from E inv have "length (arrays h a) \<le> unat (bucketNumber it)"
        by (simp add: word_le_nat_alt itInv_def)
      then have "remaining h a it = []" by (simp add: remaining_def None)
      with adv inv None show ?thesis by (intro exI [of _ True] exI [of _ it]) simp
    next
      case E: False
      let ?it2 = "it\<lparr>bucket := Some (unat (bucketNumber it), 0),
                      bucketNumber := bucketNumber it + 1\<rparr>"
      have adv: "hashmapNextAdvance h a it = Inr (False, ?it2)"
        using False None E by (simp add: hashmapNextAdvance_def)
      have lt: "bucketNumber it < numBuckets it" using E by simp
      have i0: "unat (bucketIndex it) = 0" using inv None by (simp add: itInv_def)
      note f = advance_fresh_chain [OF inv ne None lt refl i0]
      have "itInv h a ?it2" by (rule f(1))
      moreover have "remaining h a ?it2 = remaining h a it"
        using E inv unfolding f(2) f(3)
        by (simp add: upt_conv_Cons word_le_nat_alt itInv_def not_le)
      ultimately show ?thesis using adv u by (intro exI [of _ False] exI [of _ ?it2]) simp
    qed
  qed
qed

lemma slot_step:
  assumes inv: "itInv h a it2" and b: "bucket it2 = Some (n, p)"
    and i: "unat (bucketIndex it2) < 8"
  shows "remaining h a it2 =
      slotAt (bucketAt h a (n, p)) (unat (bucketIndex it2))
      # remaining h a (it2\<lparr>bucketIndex := bucketIndex it2 + 1\<rparr>)"
    and "itInv h a (it2\<lparr>bucketIndex := bucketIndex it2 + 1\<rparr>)"
proof -
  let ?S = "chainSlots (arrays h a ! n)" and ?i = "unat (bucketIndex it2)"
  from inv b have p: "p < length (arrays h a ! n)" by (simp add: itInv_def)
  have suc: "unat (bucketIndex it2 + 1) = Suc ?i"
    using i by (simp add: unat_word_ariths)
  have lt: "8 * p + ?i < length ?S" using p i by simp
  have "drop (8 * p + ?i) ?S = ?S ! (8 * p + ?i) # drop (Suc (8 * p + ?i)) ?S"
    using lt by (simp add: Cons_nth_drop_Suc)
  moreover have "?S ! (8 * p + ?i) = slotAt (bucketAt h a (n, p)) ?i"
    using p i by (simp add: chainSlots_at bucketAt_def chainAt_def)
  ultimately show "remaining h a it2 =
      slotAt (bucketAt h a (n, p)) ?i # remaining h a (it2\<lparr>bucketIndex := bucketIndex it2 + 1\<rparr>)"
    by (simp add: remaining_def b suc)
  show "itInv h a (it2\<lparr>bucketIndex := bucketIndex it2 + 1\<rparr>)"
    using inv b i suc by (simp add: itInv_def)
qed

lemma nextLoop_spec:
  assumes wf: "wfTable m h" and a: "a = buckets m" and inv: "itInv h a it"
    and lk: "length key = unat (keySize m)" and lv: "length val = unat (valueSize m)"
  shows "\<exists>it1. itInv h a it1 \<and>
     (case filter occupied (remaining h a it) of
        [] \<Rightarrow> hashmapNextLoop m a it key val h = Inr (False, it1, key, val) \<and>
              filter occupied (remaining h a it1) = []
      | s # rest \<Rightarrow>
          hashmapNextLoop m a it key val h = Inr (True, it1, fst (snd s), snd (snd s)) \<and>
          filter occupied (remaining h a it1) = rest)"
proof -
  have w: "wf (inv_image (less_than <*lex*> less_than) (nextMeasure h a))"
    by (intro wf_inv_image wf_lex_prod wf_less_than)
  have ne: "\<forall>ch \<in> set (arrays h a). ch \<noteq> []"
    using wf a by (simp add: wfTable_def wfChain_def)
  from w inv show ?thesis
  proof (induction it rule: wf_induct_rule)
    case (less it)
    from advance_spec [OF less.prems ne] obtain ex it2 where
      adv: "hashmapNextAdvance h a it = Inr (ex, it2)" and inv2: "itInv h a it2"
      and rem: "remaining h a it2 = remaining h a it"
      and c: "if ex then remaining h a it = [] \<and> bucket it2 = None
              else bucket it2 \<noteq> None \<and> unat (bucketIndex it2) < 8"
      by blast
    show ?case
    proof (cases ex)
      case True
      with c adv have "hashmapNextLoop m a it key val h = Inr (False, it2, key, val)"
        by (subst hashmapNextLoop.simps) simp
      with True c inv2 rem show ?thesis by (intro exI [of _ it2]) simp
    next
      case False
      with c obtain n p where b: "bucket it2 = Some (n, p)" and i: "unat (bucketIndex it2) < 8"
        by (cases "bucket it2") auto
      let ?it3 = "it2\<lparr>bucketIndex := bucketIndex it2 + 1\<rparr>"
      let ?s = "slotAt (bucketAt h a (n, p)) (unat (bucketIndex it2))"
      note st = slot_step [OF inv2 b i]
      show ?thesis
      proof (cases "tophash (bucketAt h a (n, p)) ! unat (bucketIndex it2) = 0")
        case Z: True
        then have no: "\<not> occupied ?s" by (simp add: occupied_def slotAt_def)
        have eq: "hashmapNextLoop m a it key val h = hashmapNextLoop m a ?it3 key val h"
          using adv False b Z by (subst hashmapNextLoop.simps) simp
        have "(?it3, it) \<in> inv_image (less_than <*lex*> less_than) (nextMeasure h a)"
          using advance_decreases [of h a it it2] adv False by simp
        from less.IH [OF this st(2)] obtain it1 where
          "itInv h a it1 \<and>
           (case filter occupied (remaining h a ?it3) of
              [] \<Rightarrow> hashmapNextLoop m a ?it3 key val h = Inr (False, it1, key, val) \<and>
                    filter occupied (remaining h a it1) = []
            | s # rest \<Rightarrow>
                hashmapNextLoop m a ?it3 key val h = Inr (True, it1, fst (snd s), snd (snd s)) \<and>
                filter occupied (remaining h a it1) = rest)" by blast
        moreover have "filter occupied (remaining h a it) = filter occupied (remaining h a ?it3)"
          using no by (simp add: rem [symmetric] st(1))
        ultimately show ?thesis unfolding eq by (intro exI [of _ it1]) simp
      next
        case Z: False
        then have oc: "occupied ?s" by (simp add: occupied_def slotAt_def)
        from inv2 b have n: "n < length (arrays h a)" "p < length (arrays h a ! n)"
          by (auto simp: itInv_def)
        have "wfChain m (arrays h a ! n)" using wf a n(1) by (simp add: wfTable_def)
        then have "wfBucket m (bucketAt h a (n, p))"
          using n(2) by (simp add: wfChain_def bucketAt_def chainAt_def)
        then have ws: "wfSlot m ?s" using i by (rule wfBucket_slotAt)
        then have cp: "memcpy key (fst (snd ?s)) (keySize m) = fst (snd ?s)"
          "memcpy val (snd (snd ?s)) (valueSize m) = snd (snd ?s)"
          using lk lv by (simp_all add: wfSlot_def)
        have "hashmapNextLoop m a it key val h = Inr (True, ?it3, fst (snd ?s), snd (snd ?s))"
          using adv False b Z a cp
          by (subst hashmapNextLoop.simps) (simp add: slotAt_def Let_def)
        moreover have "filter occupied (remaining h a it)
            = ?s # filter occupied (remaining h a ?it3)"
          using oc by (simp add: rem [symmetric] st(1))
        ultimately show ?thesis using st(2) by (intro exI [of _ ?it3]) simp
      qed
    qed
  qed
qed

section \<open>Growth\<close>

definition itStart :: "hashmap \<Rightarrow> hashmapIterator \<Rightarrow> hashmapIterator" where
  "itStart m it =
     (case buckets_it it of
        None \<Rightarrow> it\<lparr>buckets_it := Some (buckets m),
                    numBuckets := push_bit (unat (bucketBits m)) 1\<rparr>
      | Some a \<Rightarrow> it)"

lemma next_eq_loop:
  "buckets_it (itStart m it) = Some a \<Longrightarrow>
   hashmapNext (Some m) it key val h = hashmapNextLoop m a (itStart m it) key val h"
  by (auto simp: hashmapNext_def itStart_def split: option.splits)

lemma itStart_inv [simp]: "itInv h a it \<Longrightarrow> itStart m it = it"
  by (simp add: itInv_def itStart_def)

lemma itInv_arrays: "arrays h1 a = arrays h a \<Longrightarrow> itInv h1 a it = itInv h a it"
  by (simp add: itInv_def cong: option.case_cong prod.case_cong)

lemma remaining_arrays: "arrays h1 a = arrays h a \<Longrightarrow> remaining h1 a it = remaining h a it"
  by (simp add: remaining_def cong: option.case_cong prod.case_cong)

lemma wfTable_arrays:
  "arrays h1 (buckets m) = arrays h (buckets m) \<Longrightarrow> nextAddr h \<le> nextAddr h1 \<Longrightarrow>
   wfTable m h \<Longrightarrow> wfTable m h1"
  by (auto simp: wfTable_def)

lemma remaining_subset:
  assumes "itInv h a it" "s \<in> set (remaining h a it)"
  shows "\<exists>n < length (arrays h a). s \<in> set (chainSlots (arrays h a ! n))"
proof (cases "bucket it")
  case None
  with assms show ?thesis by (auto simp: remaining_def)
next
  case (Some q)
  obtain n p where q: "q = (n, p)" by (cases q)
  from assms(1) Some q have n: "n < length (arrays h a)" by (auto simp: itInv_def)
  from assms(2) Some q
  have "s \<in> set (drop (8 * p + unat (bucketIndex it)) (chainSlots (arrays h a ! n))) \<or>
    (\<exists>k \<in> {unat (bucketNumber it)..<length (arrays h a)}. s \<in> set (chainSlots (arrays h a ! k)))"
    by (auto simp: remaining_def)
  then show ?thesis
  proof
    assume "s \<in> set (drop (8 * p + unat (bucketIndex it)) (chainSlots (arrays h a ! n)))"
    then have "s \<in> set (chainSlots (arrays h a ! n))" by (rule in_set_dropD)
    with n show ?thesis by blast
  next
    assume "\<exists>k \<in> {unat (bucketNumber it)..<length (arrays h a)}. s \<in> set (chainSlots (arrays h a ! k))"
    then show ?thesis by auto
  qed
qed

lemma remaining_wfSlot:
  assumes "wfTable m h" "itInv h (buckets m) it" "s \<in> set (remaining h (buckets m) it)"
  shows "wfSlot m s"
proof -
  from remaining_subset [OF assms(2,3)] obtain n where
    n: "n < length (arrays h (buckets m))" "s \<in> set (chainSlots (arrays h (buckets m) ! n))"
    by blast
  then have "n < 2 ^ unat (bucketBits m)" using assms(1) by (simp add: wfTable_def)
  from wfTable_slots [OF assms(1) this] n(2) show ?thesis by (simp add: tslots_def chainAt_def)
qed

lemma unat_count_entries:
  assumes "count m = of_nat k" "k < 2 ^ 64"
  shows "unat (count m) = k"
  using assms by (simp add: unat_of_nat)

lemma load_bound: "b \<le> 61 \<Longrightarrow> (6::nat) * 2 ^ b + 1 < 2 ^ 64"
proof -
  assume "b \<le> 61"
  then have "(2::nat) ^ b \<le> 2 ^ 61" by (rule power_increasing) simp
  then show ?thesis by simp
qed

lemma set_no_grow:
  assumes inv: "tableInv m norm h"
    and room: "unat (bucketBits m) \<le> 61 \<longrightarrow> size (entriesM m h) \<le> 6 * 2 ^ unat (bucketBits m)"
  shows "hashmapSet fuel m key val hash h = Inr (hashmapSetInsert m key val hash h)"
proof (cases "unat (bucketBits m) \<le> 61")
  case False
  then show ?thesis by (subst hashmapSet.simps) (simp add: hasSpace_iff)
next
  case True
  with room have sz: "size (entriesM m h) \<le> 6 * 2 ^ unat (bucketBits m)" by simp
  with load_bound [OF True] have "size (entriesM m h) < 2 ^ 64" by simp
  with inv have "unat (count m) = size (entriesM m h)"
    by (intro unat_count_entries) (simp_all add: tableInv_def)
  with sz True have "\<not> hashmapOverLoadFactor (count m) (bucketBits m)"
    by (simp add: overLoad_iff)
  then show ?thesis by (subst hashmapSet.simps) simp
qed

lemma sameOutside_trans:
  "sameOutside a h h1 \<Longrightarrow> sameOutside a h1 h2 \<Longrightarrow> sameOutside a h h2"
  by (simp add: sameOutside_def)

lemma sameOutside_refl [simp]: "sameOutside a h h"
  by (simp add: sameOutside_def)

lemma setInsert_size:
  assumes wf: "wfTable m h" and lk: "length key = unat (keySize m)"
    and lv: "length val = unat (valueSize m)"
    and res: "hashmapSetInsert m key val (hashOf m key) h = (m1, h1)"
  shows "size (entriesM m h1) \<le> size (entriesM m h) + 1"
proof (cases "firstIndex (matches m key (topOf m key)) (tslots m h (homeOf m key))")
  case None
  then show ?thesis using setInsert_entries(5) [OF wf lk lv res] by simp
next
  case (Some j)
  then show ?thesis using setInsert_entries(5) [OF wf lk lv res] by (simp add: size_Diff_singleton_if)
qed


text \<open>
  The reference view of a table, a map from classes to values, and the effect of
  inserting one entry on it: an entry whose key equals nothing never shows in a lookup.
\<close>

definition refPut ::
  "(bytes \<Rightarrow> 'c option) \<Rightarrow> ('c option \<Rightarrow> bytes option) \<Rightarrow> slot
     \<Rightarrow> ('c option \<Rightarrow> bytes option)" where
  "refPut norm r s = (if keyClass norm s = None then r else r(keyClass norm s \<mapsto> snd (snd s)))"

lemma distinctM_union_mem: "distinctM (A + add_mset c B) \<Longrightarrow> c \<notin># A"
proof -
  assume d: "distinctM (A + add_mset c B)"
  then have "multiset.count (A + add_mset c B) c \<le> 1"
    unfolding distinctM_def by blast
  then have "multiset.count A c = 0" by simp
  then show "c \<notin># A" by (simp add: not_in_iff)
qed

lemma growLoop_spec:
  assumes E: "E = filter occupied (remaining h (buckets m) (itStart m it))"
    and wfm: "wfTable m h" and itv: "itInv h (buckets m) (itStart m it)"
    and invn: "tableInv n norm h" and ne: "buckets n \<noteq> buckets m"
    and ks: "keySize n = keySize m" and vs: "valueSize n = valueSize m"
    and lk: "length key = unat (keySize m)" and lv: "length val = unat (valueSize m)"
    and room: "unat (bucketBits n) \<le> 61 \<longrightarrow>
        size (entriesM n h) + length E \<le> 6 * 2 ^ unat (bucketBits n)"
    and fuel: "length E < fuel"
    and ref: "\<forall>key1. length key1 = unat (keySize m) \<longrightarrow> lookupValue n h key1 = r (norm key1)"
    and hashE: "\<forall>s \<in> set E. hashable n (fst (snd s))"
    and dst: "distinctM (classesM norm (entriesM n h + mset E))"
  shows "\<exists>c h1. hashmapGrowLoop fuel m it key val n h = Inr (n\<lparr>count := c\<rparr>, h1) \<and>
     tableInv (n\<lparr>count := c\<rparr>) norm h1 \<and> sameOutside (buckets n) h h1 \<and>
     (\<forall>key1. length key1 = unat (keySize m) \<longrightarrow>
        lookupValue n h1 key1 =
          foldl (refPut norm) r E (norm key1)) \<and>
     size (entriesM n h1) = size (entriesM n h) + length E"
  using assms
proof (induction E arbitrary: it key val n h fuel r)
  case Nil
  from Nil.prems(11) obtain f where f: "fuel = Suc f" by (cases fuel) auto
  from nextLoop_spec [OF Nil.prems(2) refl Nil.prems(3) Nil.prems(8,9)] Nil.prems(1) [symmetric]
  obtain it1 where "hashmapNextLoop m (buckets m) (itStart m it) key val h = Inr (False, it1, key, val)"
    by auto
  moreover have "buckets_it (itStart m it) = Some (buckets m)"
    using Nil.prems(3) by (simp add: itInv_def)
  ultimately have "hashmapNext (Some m) it key val h = Inr (False, it1, key, val)"
    by (simp add: next_eq_loop)
  then have "hashmapGrowLoop fuel m it key val n h = Inr (n\<lparr>count := count n\<rparr>, h)"
    unfolding f by (subst hashmapGrowLoop.simps) simp
  with Nil.prems(4,12) show ?case
    by (intro exI [of _ "count n"] exI [of _ h]) simp
next
  case (Cons s rest)
  from Cons.prems(11) obtain f where f: "fuel = Suc f" and fr: "length rest < f"
    by (cases fuel) auto
  let ?a = "buckets m"
  from nextLoop_spec [OF Cons.prems(2) refl Cons.prems(3) Cons.prems(8,9)] Cons.prems(1) [symmetric]
  obtain it1 where it1: "itInv h ?a it1"
    and nl: "hashmapNextLoop m ?a (itStart m it) key val h = Inr (True, it1, fst (snd s), snd (snd s))"
    and rm: "filter occupied (remaining h ?a it1) = rest"
    by auto
  have "buckets_it (itStart m it) = Some ?a" using Cons.prems(3) by (simp add: itInv_def)
  with nl have nx: "hashmapNext (Some m) it key val h = Inr (True, it1, fst (snd s), snd (snd s))"
    by (simp add: next_eq_loop)
  let ?k = "fst (snd s)" and ?v = "snd (snd s)"
  have "s \<in> set (filter occupied (remaining h ?a (itStart m it)))"
    using Cons.prems(1) [symmetric] by simp
  then have "s \<in> set (remaining h ?a (itStart m it))" by simp
  from remaining_wfSlot [OF Cons.prems(2,3) this]
  have lk1: "length ?k = unat (keySize n)" and lv1: "length ?v = unat (valueSize n)"
    by (simp_all add: wfSlot_def Cons.prems(6,7))
  from Cons.prems(4) have wfn: "wfTable n h" and disc: "discipline n norm" and pln: "placed n h"
    by (simp_all add: tableInv_def)
  have hk: "hashable n ?k" using Cons.prems(13) by simp
  note kh = hashable_hashOf [OF hk]
  have room0: "unat (bucketBits n) \<le> 61 \<longrightarrow> size (entriesM n h) \<le> 6 * 2 ^ unat (bucketBits n)"
    using Cons.prems(10) by auto
  obtain n1 h1 where si: "hashmapSetInsert n ?k ?v (hashOf n ?k) h = (n1, h1)"
    by (cases "hashmapSetInsert n ?k ?v (hashOf n ?k) h") auto
  have st: "hashmapSet f n ?k ?v (hashOf n ?k) h = Inr (n1, h1)"
    using set_no_grow [OF Cons.prems(4) room0, of f ?k ?v "hashOf n ?k"] si by simp
  note e = setInsert_entries [OF wfn lk1 lv1 si]
  obtain c1 where n1: "n1 = n\<lparr>count := c1\<rparr>" using e(1) by blast
  have inv1: "tableInv (n\<lparr>count := c1\<rparr>) norm h1"
    using setInsert_inv [OF Cons.prems(4) lk1 lv1 hk room0 si] n1 by simp
  let ?S = "tslots n h (homeOf n ?k)"
  have hn: "homeOf n ?k < 2 ^ unat (bucketBits n)" using wfn by (rule homeOf_less)
  have nm: "firstIndex (matches n ?k (topOf n ?k)) ?S = None"
  proof (rule ccontr)
    assume "firstIndex (matches n ?k (topOf n ?k)) ?S \<noteq> None"
    then obtain j where j: "firstIndex (matches n ?k (topOf n ?k)) ?S = Some j" by auto
    then have mem: "?S ! j \<in> set ?S" and mt: "matches n ?k (topOf n ?k) (?S ! j)"
      by (simp_all add: firstIndex_Some_iff)
    have ws: "wfSlot n (?S ! j)" using wfn hn mem by (rule wfTable_slots)
    from mt have "occupied (?S ! j)" by (simp add: matches_def occupied_def)
    with mem hn have en: "?S ! j \<in># entriesM n h" by (auto simp: entriesM_member)
    from mt matches_class [OF disc lk1 ws, of "topOf n ?k"]
    have live: "norm ?k \<noteq> None" and cl: "norm ?k = keyClass norm (?S ! j)"
      by (auto simp add: keyClass_def)
    from en cl live have "norm ?k \<in># classesM norm (entriesM n h)"
      unfolding classesM_member by (intro conjI exI [of _ "?S ! j"]) simp_all
    moreover have eq: "classesM norm (entriesM n h + mset (s # rest)) =
        classesM norm (entriesM n h) + add_mset (norm ?k) (classesM norm (mset rest))"
      using live by (simp add: classesM_add keyClass_def)
    have "distinctM (classesM norm (entriesM n h) + add_mset (norm ?k) (classesM norm (mset rest)))"
      using Cons.prems(14) unfolding eq .
    then have "norm ?k \<notin># classesM norm (entriesM n h)" by (rule distinctM_union_mem)
    ultimately show False by simp
  qed
  have en1: "entriesM n h1 = add_mset (topOf n ?k, ?k, ?v) (entriesM n h)"
    using e(5) nm by simp
  then have sz1: "size (entriesM n h1) = size (entriesM n h) + 1" by simp
  have "classesM norm (entriesM n h1 + mset rest) =
      classesM norm (add_mset (topOf n ?k, ?k, ?v) (entriesM n h + mset rest))"
    by (simp add: en1)
  also have "\<dots> = classesM norm (add_mset s (entriesM n h + mset rest))"
    by (rule classesM_same_key) simp
  also have "\<dots> = classesM norm (entriesM n h + mset (s # rest))" by simp
  finally have dst1: "distinctM (classesM norm (entriesM (n\<lparr>count := c1\<rparr>) h1 + mset rest))"
    using Cons.prems(14) by simp
  have arr: "arrays h1 ?a = arrays h ?a"
    using e(3) Cons.prems(5) by (simp add: sameOutside_def)
  have na: "nextAddr h \<le> nextAddr h1" using e(3) by (simp add: sameOutside_def)
  have wfm1: "wfTable m h1" using arr na Cons.prems(2) by (rule wfTable_arrays)
  have it1': "itInv h1 ?a (itStart m it1)" using it1 by (simp add: itInv_arrays [OF arr])
  have E1: "rest = filter occupied (remaining h1 ?a (itStart m it1))"
    using it1 rm by (simp add: remaining_arrays [OF arr])
  have ref1: "\<forall>key1. length key1 = unat (keySize m) \<longrightarrow>
      lookupValue (n\<lparr>count := c1\<rparr>) h1 key1 = (refPut norm r s) (norm key1)"
  proof (intro allI impI)
    fix key1 :: bytes assume l1: "length key1 = unat (keySize m)"
    then have l1n: "length key1 = unat (keySize n)" by (simp add: Cons.prems(6))
    from setInsert_lookup [OF wfn disc lk1 lv1 l1n si]
    show "lookupValue (n\<lparr>count := c1\<rparr>) h1 key1 = (refPut norm r s) (norm key1)"
      using Cons.prems(12) l1 by (auto simp add: n1 keyClass_def refPut_def)
  qed
  have room1: "unat (bucketBits (n\<lparr>count := c1\<rparr>)) \<le> 61 \<longrightarrow>
      size (entriesM (n\<lparr>count := c1\<rparr>) h1) + length rest
        \<le> 6 * 2 ^ unat (bucketBits (n\<lparr>count := c1\<rparr>))"
    using Cons.prems(10) sz1 by auto
  have p5: "buckets (n\<lparr>count := c1\<rparr>) \<noteq> buckets m" using Cons.prems(5) by simp
  have p6: "keySize (n\<lparr>count := c1\<rparr>) = keySize m" using Cons.prems(6) by simp
  have p7: "valueSize (n\<lparr>count := c1\<rparr>) = valueSize m" using Cons.prems(7) by simp
  have lk2: "length ?k = unat (keySize m)" using lk1 Cons.prems(6) by simp
  have lv2: "length ?v = unat (valueSize m)" using lv1 Cons.prems(7) by simp
  have hashE1: "\<forall>s \<in> set rest. hashable (n\<lparr>count := c1\<rparr>) (fst (snd s))"
    using Cons.prems(13) by simp
  have "\<exists>c h2. hashmapGrowLoop f m it1 ?k ?v (n\<lparr>count := c1\<rparr>) h1 = Inr (n\<lparr>count := c\<rparr>, h2) \<and>
     tableInv (n\<lparr>count := c\<rparr>) norm h2 \<and> sameOutside (buckets n) h1 h2 \<and>
     (\<forall>key1. length key1 = unat (keySize m) \<longrightarrow>
        lookupValue n h2 key1 =
          foldl (refPut norm) (refPut norm r s) rest
            (norm key1)) \<and>
     size (entriesM n h2) = size (entriesM n h1) + length rest"
    using Cons.IH [OF E1 wfm1 it1' inv1 p5 p6 p7 lk2 lv2 room1 fr ref1 hashE1 dst1] by simp
  then obtain c h2 where
    gl: "hashmapGrowLoop f m it1 ?k ?v (n\<lparr>count := c1\<rparr>) h1 = Inr (n\<lparr>count := c\<rparr>, h2)"
    and inv2: "tableInv (n\<lparr>count := c\<rparr>) norm h2"
    and so2: "sameOutside (buckets n) h1 h2"
    and lu2: "\<forall>key1. length key1 = unat (keySize m) \<longrightarrow>
        lookupValue n h2 key1 =
          foldl (refPut norm) (refPut norm r s) rest
            (norm key1)"
    and sz2: "size (entriesM n h2) = size (entriesM n h1) + length rest"
    by blast
  have "hashmapGrowLoop fuel m it key val n h = Inr (n\<lparr>count := c\<rparr>, h2)"
    unfolding f using nx st gl kh
    by (subst hashmapGrowLoop.simps) (simp add: n1 case_prod_beta)
  moreover have "sameOutside (buckets n) h h2" using e(3) so2 by (rule sameOutside_trans)
  ultimately show ?case using inv2 lu2 sz2 sz1
    by (intro exI [of _ c] exI [of _ h2]) simp
qed

lemma distinctM_inj:
  assumes d: "distinctM (image_mset f M)" and s: "s \<in># M" and t: "t \<in># M" and e: "f s = f t"
  shows "s = t"
proof (rule ccontr)
  assume ne: "s \<noteq> t"
  then have "t \<in># M - {#s#}" using t by (simp add: in_diff_count)
  then have "f t \<in># image_mset f (M - {#s#})" by simp
  moreover have "image_mset f M = add_mset (f s) (image_mset f (M - {#s#}))"
    using s by (metis image_mset_add_mset insert_DiffM)
  ultimately show False using d e by (simp add: distinctM_add)
qed

lemma entries_wfSlot:
  assumes "wfTable m h" "s \<in># entriesM m h"
  shows "wfSlot m s"
proof -
  from assms(2) obtain n where "n < 2 ^ unat (bucketBits m)" "s \<in> set (tslots m h n)"
    unfolding entriesM_member by blast
  with assms(1) show ?thesis by (rule wfTable_slots)
qed


lemma classes_inj:
  assumes d: "distinctM (classesM norm M)" and s: "s \<in># M" and t: "t \<in># M"
    and e: "keyClass norm s = keyClass norm t" and live: "keyClass norm s \<noteq> None"
  shows "s = t"
proof -
  let ?L = "filter_mset (\<lambda>s. keyClass norm s \<noteq> None) M"
  have "distinctM (image_mset (keyClass norm) ?L)" using d by (simp add: classesM_def)
  moreover have "s \<in># ?L" "t \<in># ?L" using s t e live by simp_all
  ultimately show ?thesis using e by (rule distinctM_inj)
qed

lemma lookup_entries:
  assumes inv: "tableInv m norm h" and lk: "length key = unat (keySize m)"
  shows "lookupValue m h key = Some v \<longleftrightarrow>
     norm key \<noteq> None \<and>
     (\<exists>s. s \<in># entriesM m h \<and> keyClass norm s = norm key \<and> snd (snd s) = v)"
proof -
  let ?S = "tslots m h (homeOf m key)" and ?P = "matches m key (topOf m key)"
  from inv have wf: "wfTable m h" and disc: "discipline m norm" and pl: "placed m h"
    and dist: "distinctM (classesM norm (entriesM m h))"
    by (simp_all add: tableInv_def)
  have n: "homeOf m key < 2 ^ unat (bucketBits m)" using wf by (rule homeOf_less)
  have hit: "s \<in># entriesM m h \<and> keyClass norm s = norm key \<and> norm key \<noteq> None"
    if "s \<in> set ?S" "?P s" for s
  proof -
    have "occupied s" using that(2) by (simp add: matches_def occupied_def)
    then have "s \<in># entriesM m h" using that(1) n by (auto simp: entriesM_member)
    moreover have "wfSlot m s" using wf n that(1) by (rule wfTable_slots)
    then have "norm key \<noteq> None \<and> norm key = norm (fst (snd s))"
      using matches_class [OF disc lk, of s "topOf m key"] that(2) by blast
    then have "keyClass norm s = norm key \<and> norm key \<noteq> None"
      unfolding keyClass_def by metis
    ultimately show ?thesis by simp
  qed
  show ?thesis
  proof
    assume "lookupValue m h key = Some v"
    then obtain j where j: "firstIndex ?P ?S = Some j" "snd (snd (?S ! j)) = v"
      by (auto simp: lookupValue_def split: option.splits)
    then have "?S ! j \<in> set ?S" "?P (?S ! j)" by (simp_all add: firstIndex_Some_iff)
    from hit [OF this] j(2)
    show "norm key \<noteq> None \<and>
        (\<exists>s. s \<in># entriesM m h \<and> keyClass norm s = norm key \<and> snd (snd s) = v)"
      by blast
  next
    assume "norm key \<noteq> None \<and>
        (\<exists>s. s \<in># entriesM m h \<and> keyClass norm s = norm key \<and> snd (snd s) = v)"
    then obtain s where s: "s \<in># entriesM m h" "keyClass norm s = norm key" "snd (snd s) = v"
      and live: "norm key \<noteq> None"
      by blast
    from entry_class_match [OF wf disc pl lk s(1,2) live] have "s \<in> set ?S" "?P s" by simp_all
    then have "firstIndex ?P ?S \<noteq> None" by (auto simp: firstIndex_None_iff)
    then obtain j where j: "firstIndex ?P ?S = Some j" by auto
    then have "?S ! j \<in> set ?S" "?P (?S ! j)" by (simp_all add: firstIndex_Some_iff)
    from hit [OF this] have a: "?S ! j \<in># entriesM m h"
      and b: "keyClass norm (?S ! j) = keyClass norm s"
      and c: "keyClass norm (?S ! j) \<noteq> None"
      using s(2) by simp_all
    from classes_inj [OF dist a s(1) b c] have "?S ! j = s" .
    with j s(3) show "lookupValue m h key = Some v" by (simp add: lookupValue_def)
  qed
qed

lemma lookup_None_entries:
  assumes inv: "tableInv m norm h" and lk: "length key = unat (keySize m)"
  shows "lookupValue m h key = None \<longleftrightarrow> norm key \<notin># classesM norm (entriesM m h)"
proof -
  have "lookupValue m h key \<noteq> None \<longleftrightarrow> (\<exists>v. lookupValue m h key = Some v)" by auto
  also have "\<dots> \<longleftrightarrow> norm key \<in># classesM norm (entriesM m h)"
    unfolding lookup_entries [OF inv lk] classesM_member by blast
  finally show ?thesis by blast
qed

lemma lookup_dead:
  assumes inv: "tableInv m norm h" and lk: "length key = unat (keySize m)"
    and dead: "norm key = None"
  shows "lookupValue m h key = None"
  unfolding lookup_None_entries [OF inv lk] using dead by (simp add: classesM_member)

lemma tslots_fresh:
  assumes "arrays h (buckets n) = replicate N [zeroBucket (keySize n) (valueSize n)]" "k < N"
  shows "tslots n h k = replicate 8 (zeroSlot n)"
  using assms by (simp add: tslots_def chainAt_def slotsOf_zero)

lemma occM_zero [simp]: "occM (replicate k (zeroSlot n)) = {#}"
  by (induction k) (simp_all add: occM_def)

lemma fresh_inv:
  assumes arr: "arrays h (buckets n) =
      replicate (2 ^ unat (bucketBits n)) [zeroBucket (keySize n) (valueSize n)]"
    and b: "unat (bucketBits n) \<le> 62" and a: "buckets n < nextAddr h"
    and disc: "discipline n norm" and c: "count n = 0"
  shows "tableInv n norm h" and "entriesM n h = {#}"
proof -
  have ts: "\<And>k. k < 2 ^ unat (bucketBits n) \<Longrightarrow> tslots n h k = replicate 8 (zeroSlot n)"
    using arr by (rule tslots_fresh)
  show e: "entriesM n h = {#}" by (simp add: entriesM_def ts)
  have wf: "wfTable n h"
    using arr b a by (simp add: wfTable_def wfChain_def wfBucket_zero)
  have pl: "placed n h" by (auto simp: placed_def ts)
  show "tableInv n norm h" using wf disc pl c by (simp add: tableInv_def e)
qed

lemma lookup_empty:
  "tableInv m norm h \<Longrightarrow> entriesM m h = {#} \<Longrightarrow> length key = unat (keySize m) \<Longrightarrow>
   lookupValue m h key = None"
  by (simp add: lookup_None_entries)

lemma mset_filter_concat_upt:
  "mset (filter P (concat (map f [0..<N]))) = (\<Sum>n<N. filter_mset P (mset (f n)))"
  by (induction N) simp_all

lemma entries_list:
  assumes "wfTable m h"
  shows "mset (filter occupied (concat (map (\<lambda>n. chainSlots (arrays h (buckets m) ! n))
      [0..<length (arrays h (buckets m))]))) = entriesM m h"
proof -
  have "length (arrays h (buckets m)) = 2 ^ unat (bucketBits m)"
    using assms by (simp add: wfTable_def)
  then show ?thesis
    by (subst mset_filter_concat_upt) (simp add: entriesM_def occM_def tslots_def chainAt_def)
qed

lemma distinctM_mset: "distinctM (mset xs) \<Longrightarrow> distinct xs"
  by (induction xs) (simp_all add: distinctM_add)


lemma foldl_refPut:
  "distinct (map (keyClass norm) (filter (\<lambda>s. keyClass norm s \<noteq> None) E)) \<Longrightarrow>
   foldl (refPut norm) r E c =
     (case map_of (map (\<lambda>s. (keyClass norm s, snd (snd s)))
              (filter (\<lambda>s. keyClass norm s \<noteq> None) E)) c of
        None \<Rightarrow> r c
      | Some v \<Rightarrow> Some v)"
proof (induction E arbitrary: r)
  case Nil
  then show ?case by simp
next
  case (Cons s E)
  let ?L = "filter (\<lambda>s. keyClass norm s \<noteq> None) E"
  show ?case
  proof (cases "keyClass norm s = None")
    case True
    then have "refPut norm r s = r" by (simp add: refPut_def)
    then show ?thesis using Cons True by simp
  next
    case live: False
    with Cons.prems have d: "distinct (map (keyClass norm) ?L)"
      and ni: "keyClass norm s \<notin> keyClass norm ` set ?L"
      by simp_all
    have step: "foldl (refPut norm) r (s # E) c =
        (case map_of (map (\<lambda>s. (keyClass norm s, snd (snd s))) ?L) c of
           None \<Rightarrow> refPut norm r s c
         | Some v \<Rightarrow> Some v)"
      by (simp add: Cons.IH [OF d])
    show ?thesis
    proof (cases "c = keyClass norm s")
      case True
      then have "map_of (map (\<lambda>s. (keyClass norm s, snd (snd s))) ?L) c = None"
        using ni by (simp add: map_of_eq_None_iff image_iff)
      then show ?thesis unfolding step using True live by (auto simp add: refPut_def)
    next
      case False
      have "refPut norm r s c = r c" using False by (simp add: refPut_def)
      then show ?thesis unfolding step using False live by (simp split: option.splits)
    qed
  qed
qed

lemma lookup_list:
  assumes inv: "tableInv m norm h" and lk: "length key = unat (keySize m)"
    and E: "mset E = entriesM m h"
  shows "distinct (map (keyClass norm) (filter (\<lambda>s. keyClass norm s \<noteq> None) E))"
    and "lookupValue m h key =
      map_of (map (\<lambda>s. (keyClass norm s, snd (snd s)))
        (filter (\<lambda>s. keyClass norm s \<noteq> None) E)) (norm key)"
proof -
  let ?L = "filter (\<lambda>s. keyClass norm s \<noteq> None) E"
  have "mset (map (keyClass norm) ?L) = classesM norm (mset E)"
    by (simp add: classesM_def)
  then have "distinctM (mset (map (keyClass norm) ?L))"
    using inv by (simp add: tableInv_def E)
  then show d: "distinct (map (keyClass norm) ?L)" by (rule distinctM_mset)
  let ?xs = "map (\<lambda>s. (keyClass norm s, snd (snd s))) ?L"
  have df: "distinct (map fst ?xs)" using d by (simp add: comp_def)
  have iff: "lookupValue m h key = Some v \<longleftrightarrow> map_of ?xs (norm key) = Some v" for v
  proof -
    have "lookupValue m h key = Some v \<longleftrightarrow>
        norm key \<noteq> None \<and> (\<exists>s. s \<in> set E \<and> keyClass norm s = norm key \<and> snd (snd s) = v)"
      unfolding lookup_entries [OF inv lk] E [symmetric] by simp
    also have "\<dots> \<longleftrightarrow> (norm key, v) \<in> set ?xs"
    proof
      assume "norm key \<noteq> None \<and> (\<exists>s. s \<in> set E \<and> keyClass norm s = norm key \<and> snd (snd s) = v)"
      then obtain s where "s \<in> set E" "keyClass norm s = norm key" "snd (snd s) = v"
        "norm key \<noteq> None" by blast
      then have "s \<in> set ?L" "(norm key, v) = (keyClass norm s, snd (snd s))" by simp_all
      then show "(norm key, v) \<in> set ?xs" unfolding set_map by (rule image_eqI [rotated])
    next
      assume "(norm key, v) \<in> set ?xs"
      then obtain x where "x \<in> set ?L" "norm key = keyClass norm x" "v = snd (snd x)"
        by auto
      then have "x \<in> set E \<and> keyClass norm x = norm key \<and> snd (snd x) = v" "norm key \<noteq> None"
        by simp_all
      then show "norm key \<noteq> None \<and>
          (\<exists>s. s \<in> set E \<and> keyClass norm s = norm key \<and> snd (snd s) = v)"
        by blast
    qed
    also have "\<dots> \<longleftrightarrow> map_of ?xs (norm key) = Some v" using df by simp
    finally show ?thesis .
  qed
  show "lookupValue m h key = map_of ?xs (norm key)"
  proof (cases "map_of ?xs (norm key)")
    case None
    with iff have "\<And>v. lookupValue m h key \<noteq> Some v" by simp
    then have "lookupValue m h key = None" by (cases "lookupValue m h key") blast+
    with None show ?thesis by simp
  next
    case (Some v)
    with iff show ?thesis by simp
  qed
qed

lemma tslots_arrays:
  "arrays h1 (buckets m) = arrays h (buckets m) \<Longrightarrow> tslots m h1 = tslots m h"
  by (rule ext) (simp add: tslots_def chainAt_def)

lemma tableInv_frame:
  assumes "arrays h1 (buckets m) = arrays h (buckets m)" "nextAddr h \<le> nextAddr h1"
    "tableInv m norm h"
  shows "tableInv m norm h1" "entriesM m h1 = entriesM m h" "lookupValue m h1 = lookupValue m h"
proof -
  note ts = tslots_arrays [OF assms(1)]
  show e: "entriesM m h1 = entriesM m h" by (simp add: entriesM_def ts)
  show "lookupValue m h1 = lookupValue m h" by (rule ext) (simp add: lookupValue_slotLookup ts)
  have "wfTable m h1" using assms by (intro wfTable_arrays [of h1 m h]) (simp_all add: tableInv_def)
  moreover have "placed m h1" using assms(3) by (simp add: placed_def ts tableInv_def)
  ultimately show "tableInv m norm h1" using assms(3) by (simp add: tableInv_def e)
qed

lemma discipline_fields:
  "keyEqual n = keyEqual m \<Longrightarrow> keyHash n = keyHash m \<Longrightarrow> keySize n = keySize m \<Longrightarrow>
   discipline n norm = discipline m norm"
  by (simp add: discipline_def)


lemma hashable_reseed:
  assumes "discipline m norm" "length k = unat (keySize m)" "hashable m k"
    and "keyHash n = keyHash m" "keySize n = keySize m"
  shows "hashable n k"
proof -
  have "isl (keyHash m k (keySize m) (seed n)) \<longrightarrow> isl (keyHash m k (keySize m) (seed m))"
    using assms(1,2) unfolding discipline_def by blast
  with assms(3,4,5) show ?thesis by (auto simp: hashable_def)
qed

lemma grow_spec:
  assumes inv: "tableInv m norm h" and sp: "unat (bucketBits m) \<le> 61"
    and fits: "allocFits (keySize m) (valueSize m) (Suc (unat (bucketBits m)))"
    and fuel: "size (entriesM m h) < fuel"
  shows "\<exists>c h1. hashmapGrow fuel m h =
       Inr (m\<lparr>count := c, seed := ucast (rand h (randPos h)),
              bucketBits := bucketBits m + 1, buckets := nextAddr h\<rparr>, h1) \<and>
     tableInv (m\<lparr>count := c, seed := ucast (rand h (randPos h)),
                bucketBits := bucketBits m + 1, buckets := nextAddr h\<rparr>) norm h1 \<and>
     (\<forall>a. a \<noteq> nextAddr h \<longrightarrow> arrays h1 a = arrays h a) \<and>
     nextAddr h1 = nextAddr h + 1 \<and> randPos h1 = randPos h + 1 \<and> rand h1 = rand h \<and>
     (\<forall>key. length key = unat (keySize m) \<longrightarrow>
        lookupValue (m\<lparr>count := c, seed := ucast (rand h (randPos h)),
                bucketBits := bucketBits m + 1, buckets := nextAddr h\<rparr>) h1 key
          = lookupValue m h key) \<and>
     size (entriesM (m\<lparr>count := c, seed := ucast (rand h (randPos h)),
                bucketBits := bucketBits m + 1, buckets := nextAddr h\<rparr>) h1)
       = size (entriesM m h) \<and>
     c = count m"
proof -
  let ?b = "unat (bucketBits m)"
  define n0 where "n0 = m\<lparr>count := 0, seed := ucast (rand h (randPos h)),
               bucketBits := bucketBits m + 1, buckets := nextAddr h\<rparr>"
  define N where "N = unat (bucketBufSize (keySize m) (valueSize m)
                          * push_bit (unat (bucketBits m + 1)) (1 :: uintptr))
                      div unat (bucketBufSize (keySize m) (valueSize m))"
  define h2 where "h2 = h\<lparr>randPos := randPos h + 1,
               arrays := (arrays h)(nextAddr h := replicate N [zeroBucket (keySize m) (valueSize m)]),
               nextAddr := nextAddr h + 1\<rparr>"
  define key0 where "key0 = replicate (unat (keySize m)) (0 :: u8)"
  define val0 where "val0 = replicate (unat (valueSize m)) (0 :: u8)"
  define E where "E = filter occupied (remaining h2 (buckets m) (itStart m hashmapNewIterator))"
  from inv have wf: "wfTable m h" and disc: "discipline m norm" and pl: "placed m h"
    and cnt: "count m = of_nat (size (entriesM m h))"
    and dist: "distinctM (classesM norm (entriesM m h))"
    and load: "size (entriesM m h) \<le> 6 * 2 ^ ?b + 1"
    using sp by (simp_all add: tableInv_def)
  have bm: "buckets m < nextAddr h" using wf by (simp add: wfTable_def)
  have suc: "unat (bucketBits m + 1) = Suc ?b" using sp by (simp add: unat_word_ariths)
  have N: "N = 2 ^ Suc ?b" unfolding N_def suc using fits by (rule allocFits_size(3))
  have g: "hashmapGrow fuel m h = hashmapGrowLoop fuel m hashmapNewIterator key0 val0 n0 h2"
    unfolding n0_def h2_def N_def key0_def val0_def
    by (subst hashmapGrow.simps) (simp add: fastrand_def allocBuckets_def)
  have f0: "keySize n0 = keySize m" "valueSize n0 = valueSize m" "keyEqual n0 = keyEqual m"
    "keyHash n0 = keyHash m" "buckets n0 = nextAddr h" "count n0 = 0"
    "unat (bucketBits n0) = Suc ?b"
    by (simp_all add: n0_def suc)
  have h2f: "arrays h2 (nextAddr h) = replicate N [zeroBucket (keySize m) (valueSize m)]"
    "\<And>a. a \<noteq> nextAddr h \<Longrightarrow> arrays h2 a = arrays h a"
    "nextAddr h2 = nextAddr h + 1" "randPos h2 = randPos h + 1" "rand h2 = rand h"
    by (simp_all add: h2_def)
  have arr0: "arrays h2 (buckets n0) =
      replicate (2 ^ unat (bucketBits n0)) [zeroBucket (keySize n0) (valueSize n0)]"
    using N by (simp add: f0 h2f(1))
  have "discipline n0 norm = discipline m norm" by (rule discipline_fields) (simp_all add: f0)
  then have d0: "discipline n0 norm" using disc by simp
  have b0: "unat (bucketBits n0) \<le> 62" using sp by (simp add: f0)
  have a0: "buckets n0 < nextAddr h2" by (simp add: f0 h2f)
  note fr = fresh_inv [OF arr0 b0 a0 d0 f0(6)]
  note inv0 = fr(1) and e0 = fr(2)
  have arrm: "arrays h2 (buckets m) = arrays h (buckets m)" using bm by (simp add: h2f(2))
  have le: "nextAddr h \<le> nextAddr h2" by (simp add: h2f)
  note fm = tableInv_frame [OF arrm le inv]
  note invm = fm(1) and em = fm(2) and lm = fm(3)
  have wfm: "wfTable m h2" using invm by (simp add: tableInv_def)
  have len: "length (arrays h2 (buckets m)) = 2 ^ ?b" using wf arrm by (simp add: wfTable_def)
  have pb: "unat (push_bit ?b (1 :: uintptr)) = 2 ^ ?b" using sp by (intro unat_push_bit_1) simp
  have itv: "itInv h2 (buckets m) (itStart m hashmapNewIterator)"
    using len pb by (simp add: itInv_def itStart_def hashmapNewIterator_def)
  have rem: "remaining h2 (buckets m) (itStart m hashmapNewIterator) =
      concat (map (\<lambda>n. chainSlots (arrays h2 (buckets m) ! n)) [0..<length (arrays h2 (buckets m))])"
    by (simp add: remaining_def itStart_def hashmapNewIterator_def)
  have mE: "mset E = entriesM m h"
    unfolding E_def rem using entries_list [OF wfm] em by simp
  then have lE: "length E = size (entriesM m h)" by (metis size_mset)
  have p: "(1::nat) \<le> 2 ^ ?b" by simp
  have "size (entriesM m h) \<le> 6 * (2 * 2 ^ ?b)" using load p by linarith
  then have "size (entriesM n0 h2) + length E \<le> 6 * 2 ^ unat (bucketBits n0)"
    unfolding e0 lE f0(7) by simp
  then have room: "unat (bucketBits n0) \<le> 61 \<longrightarrow>
      size (entriesM n0 h2) + length E \<le> 6 * 2 ^ unat (bucketBits n0)" by simp
  have ref: "\<forall>key1. length key1 = unat (keySize m) \<longrightarrow>
      lookupValue n0 h2 key1 = Map.empty (norm key1)"
    using lookup_empty [OF inv0 e0] by (simp add: f0)
  have ne: "buckets n0 \<noteq> buckets m" using bm by (simp add: f0)
  have lk0: "length key0 = unat (keySize m)" and lv0: "length val0 = unat (valueSize m)"
    by (simp_all add: key0_def val0_def)
  have fu: "length E < fuel" using fuel lE by simp
  have hashE: "\<forall>s \<in> set E. hashable n0 (fst (snd s))"
  proof
    fix s assume "s \<in> set E"
    then have "s \<in># mset E" by simp
    then have s: "s \<in># entriesM m h" unfolding mE .
    then obtain k where k: "k < 2 ^ ?b" "s \<in> set (tslots m h k)" "occupied s"
      unfolding entriesM_member by blast
    have hm: "hashable m (fst (snd s))"
      using pl [unfolded placed_def, rule_format, OF k(1) k(2) k(3)] by simp
    have ls: "length (fst (snd s)) = unat (keySize m)"
      using entries_wfSlot [OF wf s] by (simp add: wfSlot_def)
    show "hashable n0 (fst (snd s))"
      using disc ls hm f0(4) f0(1) by (rule hashable_reseed)
  qed
  have dst: "distinctM (classesM norm (entriesM n0 h2 + mset E))"
    using dist by (simp add: e0 mE)
  from growLoop_spec [OF E_def wfm itv inv0 ne f0(1) f0(2) lk0 lv0 room fu ref hashE dst]
  obtain c h1 where
    gl: "hashmapGrowLoop fuel m hashmapNewIterator key0 val0 n0 h2 = Inr (n0\<lparr>count := c\<rparr>, h1)"
    and inv1: "tableInv (n0\<lparr>count := c\<rparr>) norm h1"
    and so: "sameOutside (buckets n0) h2 h1"
    and lu: "\<forall>key1. length key1 = unat (keySize m) \<longrightarrow>
        lookupValue n0 h1 key1 = foldl (refPut norm) Map.empty E (norm key1)"
    and szl: "size (entriesM n0 h1) = size (entriesM n0 h2) + length E"
    by blast
  let ?n = "m\<lparr>count := c, seed := ucast (rand h (randPos h)),
              bucketBits := bucketBits m + 1, buckets := nextAddr h\<rparr>"
  have neq: "n0\<lparr>count := c\<rparr> = ?n" by (simp add: n0_def)
  have lu1: "\<forall>key. length key = unat (keySize m) \<longrightarrow> lookupValue ?n h1 key = lookupValue m h key"
  proof (intro allI impI)
    fix key :: bytes assume lk: "length key = unat (keySize m)"
    have mE2: "mset E = entriesM m h2" using mE em by simp
    note ll = lookup_list [OF invm lk mE2]
    have "lookupValue n0 h1 key = foldl (refPut norm) Map.empty E (norm key)"
      using lu lk by simp
    also have "\<dots> = map_of (map (\<lambda>s. (keyClass norm s, snd (snd s)))
        (filter (\<lambda>s. keyClass norm s \<noteq> None) E)) (norm key)"
      unfolding foldl_refPut [OF ll(1)] by (simp split: option.splits)
    also have "\<dots> = lookupValue m h key" using ll(2) lm by simp
    finally have "lookupValue (n0\<lparr>count := c\<rparr>) h1 key = lookupValue m h key" by simp
    then show "lookupValue ?n h1 key = lookupValue m h key" unfolding neq .
  qed
  have inv1': "tableInv ?n norm h1" using inv1 unfolding neq .
  have "size (entriesM (n0\<lparr>count := c\<rparr>) h1) = size (entriesM m h)"
    using szl by (simp add: e0 lE)
  then have sz: "size (entriesM ?n h1) = size (entriesM m h)" unfolding neq .
  then have c: "c = count m" using inv1' cnt by (simp add: tableInv_def)
  have fa: "\<forall>a. a \<noteq> nextAddr h \<longrightarrow> arrays h1 a = arrays h a"
    using so h2f(2) by (simp add: sameOutside_def f0)
  have h1f: "nextAddr h1 = nextAddr h + 1" "randPos h1 = randPos h + 1" "rand h1 = rand h"
    using so h2f by (simp_all add: sameOutside_def)
  have "hashmapGrow fuel m h = Inr (?n, h1)" using g gl unfolding neq by simp
  with inv1' fa h1f lu1 c sz show ?thesis
    by (intro exI [of _ c] exI [of _ h1]) simp
qed

section \<open>hashmapSet as a whole\<close>

lemma inv_unat_count:
  assumes inv: "tableInv m norm h" and sp: "unat (bucketBits m) \<le> 61"
  shows "unat (count m) = size (entriesM m h)"
proof -
  from inv sp have "size (entriesM m h) \<le> 6 * 2 ^ unat (bucketBits m) + 1"
    and c: "count m = of_nat (size (entriesM m h))" by (simp_all add: tableInv_def)
  with load_bound [OF sp] have "size (entriesM m h) < 2 ^ 64" by simp
  with c show ?thesis by (rule unat_count_entries)
qed


lemma lookup_None_firstIndex:
  "lookupValue m h key = None \<longleftrightarrow>
     firstIndex (matches m key (topOf m key)) (tslots m h (homeOf m key)) = None"
  by (simp add: lookupValue_def split: option.splits)

lemma setInsert_size_exact:
  assumes wf: "wfTable m h" and lk: "length key = unat (keySize m)"
    and lv: "length val = unat (valueSize m)"
    and res: "hashmapSetInsert m key val (hashOf m key) h = (m1, h1)"
  shows "size (entriesM m h1) =
     size (entriesM m h) + (if lookupValue m h key = None then 1 else 0)"
proof (cases "firstIndex (matches m key (topOf m key)) (tslots m h (homeOf m key))")
  case None
  then show ?thesis
    using setInsert_entries(5) [OF wf lk lv res] by (simp add: lookup_None_firstIndex)
next
  case (Some j)
  let ?S = "tslots m h (homeOf m key)"
  have n: "homeOf m key < 2 ^ unat (bucketBits m)" using wf by (rule homeOf_less)
  from Some have j: "j < length ?S" "matches m key (topOf m key) (?S ! j)"
    by (simp_all add: firstIndex_Some_iff)
  then have "occupied (?S ! j)" by (simp add: matches_def occupied_def)
  then have mem: "?S ! j \<in># entriesM m h" using j(1) n by (auto simp: entriesM_member)
  then have "entriesM m h \<noteq> {#}" by auto
  then have "0 < size (entriesM m h)" by (simp add: nonempty_has_size)
  then show ?thesis
    using Some mem setInsert_entries(5) [OF wf lk lv res]
    by (simp add: lookup_None_firstIndex size_Diff_singleton)
qed

text \<open>
  When hashmapSet is about to grow the table, the byte size of the doubled array fits
  into a \<open>uintptr\<close>.
\<close>

definition growFits :: "hashmap \<Rightarrow> bool" where
  "growFits m \<longleftrightarrow>
     (hashmapHasSpaceToGrow (bucketBits m) \<and> hashmapOverLoadFactor (count m) (bucketBits m)
        \<longrightarrow> allocFits (keySize m) (valueSize m) (Suc (unat (bucketBits m))))"

definition growsOnSet :: "hashmap \<Rightarrow> bool" where
  "growsOnSet m \<longleftrightarrow>
     hashmapHasSpaceToGrow (bucketBits m) \<and> hashmapOverLoadFactor (count m) (bucketBits m)"

lemma set_spec:
  assumes inv: "tableInv m norm h" and lk: "length key = unat (keySize m)"
    and lv: "length val = unat (valueSize m)"
    and hk: "hashable m key" and fits: "growFits m"
    and fuel: "size (entriesM m h) + 2 \<le> fuel"
  shows "\<exists>m1 h1. hashmapSet fuel m key val (hashOf m key) h = Inr (m1, h1) \<and>
     tableInv m1 norm h1 \<and>
     keySize m1 = keySize m \<and> valueSize m1 = valueSize m \<and>
     keyEqual m1 = keyEqual m \<and> keyHash m1 = keyHash m \<and> hashable m1 key \<and>
     (\<forall>key1. length key1 = unat (keySize m) \<longrightarrow>
        lookupValue m1 h1 key1 =
          (if norm key \<noteq> None \<and> norm key1 = norm key then Some val
           else lookupValue m h key1)) \<and>
     size (entriesM m1 h1) =
       size (entriesM m h) + (if lookupValue m h key = None then 1 else 0) \<and>
     bucketBits m1 = (if growsOnSet m then bucketBits m + 1 else bucketBits m) \<and>
     seed m1 = (if growsOnSet m then ucast (rand h (randPos h)) else seed m) \<and>
     buckets m1 = (if growsOnSet m then nextAddr h else buckets m) \<and>
     (\<forall>a. a \<noteq> buckets m1 \<longrightarrow> arrays h1 a = arrays h a) \<and>
     nextAddr h \<le> nextAddr h1"
proof (cases "hashmapHasSpaceToGrow (bucketBits m) \<and> hashmapOverLoadFactor (count m) (bucketBits m)")
  case False
  then have ng: "\<not> growsOnSet m" by (simp add: growsOnSet_def)
  have room: "unat (bucketBits m) \<le> 61 \<longrightarrow> size (entriesM m h) \<le> 6 * 2 ^ unat (bucketBits m)"
  proof
    assume sp: "unat (bucketBits m) \<le> 61"
    with False have "\<not> hashmapOverLoadFactor (count m) (bucketBits m)" by (simp add: hasSpace_iff)
    then show "size (entriesM m h) \<le> 6 * 2 ^ unat (bucketBits m)"
      using inv_unat_count [OF inv sp] sp by (simp add: overLoad_iff)
  qed
  obtain m1 h1 where si: "hashmapSetInsert m key val (hashOf m key) h = (m1, h1)"
    by (cases "hashmapSetInsert m key val (hashOf m key) h") auto
  from inv have wf: "wfTable m h" and disc: "discipline m norm" by (simp_all add: tableInv_def)
  have st: "hashmapSet fuel m key val (hashOf m key) h = Inr (m1, h1)"
    using set_no_grow [OF inv room, of fuel key val "hashOf m key"] si by simp
  have inv1: "tableInv m1 norm h1" by (rule setInsert_inv [OF inv lk lv hk room si])
  note e = setInsert_entries [OF wf lk lv si]
  obtain c where m1: "m1 = m\<lparr>count := c\<rparr>" using e(1) by blast
  have lu: "\<forall>key1. length key1 = unat (keySize m) \<longrightarrow>
        lookupValue m1 h1 key1 =
          (if norm key \<noteq> None \<and> norm key1 = norm key then Some val
           else lookupValue m h key1)"
    using setInsert_lookup [OF wf disc lk lv _ si] by blast
  have sz: "size (entriesM m1 h1) =
       size (entriesM m h) + (if lookupValue m h key = None then 1 else 0)"
    using setInsert_size_exact [OF wf lk lv si] by (simp add: m1)
  have fr: "\<forall>a. a \<noteq> buckets m \<longrightarrow> arrays h1 a = arrays h a" "nextAddr h \<le> nextAddr h1"
    using e(3) by (simp_all add: sameOutside_def)
  show ?thesis using st inv1 lu sz ng hk fr
    by (intro exI [of _ m1] exI [of _ h1]) (simp add: m1)
next
  case True
  then have gr: "growsOnSet m" by (simp add: growsOnSet_def)
  from True have sp: "unat (bucketBits m) \<le> 61" by (simp add: hasSpace_iff)
  from True fits have af: "allocFits (keySize m) (valueSize m) (Suc (unat (bucketBits m)))"
    by (simp add: growFits_def)
  from fuel obtain f where f: "fuel = Suc f" and fl: "size (entriesM m h) < f"
    by (cases fuel) auto
  let ?n = "\<lambda>c. m\<lparr>count := c, seed := ucast (rand h (randPos h)),
              bucketBits := bucketBits m + 1, buckets := nextAddr h\<rparr>"
  from grow_spec [OF inv sp af fl] obtain c h1 where
    g: "hashmapGrow f m h = Inr (?n c, h1)" and invn: "tableInv (?n c) norm h1"
    and lun: "\<forall>key. length key = unat (keySize m) \<longrightarrow> lookupValue (?n c) h1 key = lookupValue m h key"
    and sz: "size (entriesM (?n c) h1) = size (entriesM m h)"
    and fa: "\<forall>a. a \<noteq> nextAddr h \<longrightarrow> arrays h1 a = arrays h a"
    and na: "nextAddr h1 = nextAddr h + 1"
    by blast
  define n where "n = ?n c"
  have nf: "keySize n = keySize m" "valueSize n = valueSize m" "keyEqual n = keyEqual m"
    "keyHash n = keyHash m" "unat (bucketBits n) = Suc (unat (bucketBits m))"
    "bucketBits n = bucketBits m + 1" "seed n = ucast (rand h (randPos h))"
    "buckets n = nextAddr h"
    using sp by (simp_all add: n_def unat_word_ariths)
  have invn': "tableInv n norm h1" using invn by (simp add: n_def)
  from invn' have wf: "wfTable n h1" and disc: "discipline n norm" by (simp_all add: tableInv_def)
  from inv have discm: "discipline m norm" by (simp add: tableInv_def)
  have lkn: "length key = unat (keySize n)" and lvn: "length val = unat (valueSize n)"
    using lk lv by (simp_all add: nf)
  have hkn: "hashable n key" using discm lk hk nf(4) nf(1) by (rule hashable_reseed)
  note khn = hashable_hashOf [OF hkn]
  from inv sp have "size (entriesM m h) \<le> 6 * 2 ^ unat (bucketBits m) + 1"
    by (simp add: tableInv_def)
  moreover have "(1::nat) \<le> 2 ^ unat (bucketBits m)" by simp
  ultimately have "size (entriesM m h) \<le> 6 * (2 * 2 ^ unat (bucketBits m))" by linarith
  moreover have szn: "size (entriesM n h1) = size (entriesM m h)" using sz by (simp add: n_def)
  ultimately have room: "unat (bucketBits n) \<le> 61 \<longrightarrow> size (entriesM n h1) \<le> 6 * 2 ^ unat (bucketBits n)"
    by (simp add: nf(5))
  obtain m1 h2 where si: "hashmapSetInsert n key val (hashOf n key) h1 = (m1, h2)"
    by (cases "hashmapSetInsert n key val (hashOf n key) h1") auto
  have st: "hashmapSet fuel m key val (hashOf m key) h = Inr (m1, h2)"
    unfolding f using True g si khn
    by (subst hashmapSet.simps) (simp add: n_def [symmetric])
  have inv1: "tableInv m1 norm h2" by (rule setInsert_inv [OF invn' lkn lvn hkn room si])
  note e = setInsert_entries [OF wf lkn lvn si]
  obtain c1 where m1: "m1 = n\<lparr>count := c1\<rparr>" using e(1) by blast
  have lu: "\<forall>key1. length key1 = unat (keySize m) \<longrightarrow>
        lookupValue m1 h2 key1 =
          (if norm key \<noteq> None \<and> norm key1 = norm key then Some val
           else lookupValue m h key1)"
  proof (intro allI impI)
    fix key1 :: bytes assume l1: "length key1 = unat (keySize m)"
    then have "length key1 = unat (keySize n)" by (simp add: nf)
    from setInsert_lookup [OF wf disc lkn lvn this si]
    show "lookupValue m1 h2 key1 =
          (if norm key \<noteq> None \<and> norm key1 = norm key then Some val
           else lookupValue m h key1)"
      using lun l1 by (simp add: n_def)
  qed
  have "lookupValue n h1 key = lookupValue m h key" using lun lk by (simp add: n_def)
  then have sz1: "size (entriesM m1 h2) =
       size (entriesM m h) + (if lookupValue m h key = None then 1 else 0)"
    using setInsert_size_exact [OF wf lkn lvn si] szn by (simp add: m1)
  have "\<forall>a. a \<noteq> buckets n \<longrightarrow> arrays h2 a = arrays h1 a" "nextAddr h1 \<le> nextAddr h2"
    using e(3) by (simp_all add: sameOutside_def)
  then have fr: "\<forall>a. a \<noteq> buckets n \<longrightarrow> arrays h2 a = arrays h a" "nextAddr h \<le> nextAddr h2"
    using fa na by (simp_all add: nf(8))
  show ?thesis using st inv1 lu sz1 gr hkn fr
    by (intro exI [of _ m1] exI [of _ h2]) (simp add: m1 nf)
qed

section \<open>make, clear and delete keep the table sound\<close>

lemma make_fields:
  assumes "hashmapMake ext ks vs sizeHint alg h = (m, h1)"
  shows "count m = 0" "keySize m = ks" "valueSize m = vs" "buckets m = nextAddr h"
    "nextAddr h1 = nextAddr h + 1" "unat (bucketBits m) \<le> 62"
    "arrays h1 (buckets m) =
       replicate (unat (bucketBufSize ks vs * push_bit (unat (bucketBits m)) (1 :: uintptr))
                    div unat (bucketBufSize ks vs)) [zeroBucket ks vs]"
    "\<forall>a. a \<noteq> nextAddr h \<longrightarrow> arrays h1 a = arrays h a"
    "keyEqual m = hashmapKeyEqualAlg ext alg" "keyHash m = hashmapKeyHashAlg ext alg"
    "seed m = ucast (rand h (randPos h))"
proof -
  from make_result [OF assms]
  show "count m = 0" "keySize m = ks" "valueSize m = vs" "buckets m = nextAddr h"
    "nextAddr h1 = nextAddr h + 1" "unat (bucketBits m) \<le> 62"
    "arrays h1 (buckets m) =
       replicate (unat (bucketBufSize ks vs * push_bit (unat (bucketBits m)) (1 :: uintptr))
                    div unat (bucketBufSize ks vs)) [zeroBucket ks vs]"
    "\<forall>a. a \<noteq> nextAddr h \<longrightarrow> arrays h1 a = arrays h a"
    by blast+
  from assms show "keyEqual m = hashmapKeyEqualAlg ext alg" "keyHash m = hashmapKeyHashAlg ext alg"
    "seed m = ucast (rand h (randPos h))"
    by (auto simp: hashmapMake_def allocBuckets_def fastrand_def Let_def)
qed

lemma make_inv:
  assumes mk: "hashmapMake ext ks vs sizeHint alg h = (m, h1)" and disc: "discipline m norm"
    and fits: "allocFits ks vs (unat (bucketBits m))"
  shows "tableInv m norm h1" and "entriesM m h1 = {#}"
proof -
  note f = make_fields [OF mk]
  have arr: "arrays h1 (buckets m) =
      replicate (2 ^ unat (bucketBits m)) [zeroBucket (keySize m) (valueSize m)]"
    using f(7) allocFits_size(3) [OF fits] by (simp add: f(2) f(3))
  have a: "buckets m < nextAddr h1" by (simp add: f(4) f(5))
  show "tableInv m norm h1" by (rule fresh_inv(1) [OF arr f(6) a disc f(1)])
  show "entriesM m h1 = {#}" by (rule fresh_inv(2) [OF arr f(6) a disc f(1)])
qed

text \<open>
  The binary and the string discipline: byte equality with the byte hash, and equality
  of the string contents with the hash of the contents. Either is an equivalence, and
  the hash never panics. The interface discipline rests on the equality of boxed
  values, which is outside this file.
\<close>

lemma binary_discipline:
  "keyEqual m = hashmapKeyEqualAlg ext hashmapAlgorithmBinary \<Longrightarrow>
   keyHash m = hashmapKeyHashAlg ext hashmapAlgorithmBinary \<Longrightarrow> discipline m Some"
  by (simp add: discipline_def memequal_def hashmapKeyEqualAlg_def)

lemma make_binary_discipline:
  "hashmapMake ext ks vs sizeHint hashmapAlgorithmBinary h = (m, h1) \<Longrightarrow> discipline m Some"
  by (rule binary_discipline) (simp_all add: make_fields(9,10))

lemma string_discipline:
  "keyEqual m = hashmapKeyEqualAlg ext hashmapAlgorithmString \<Longrightarrow>
   keyHash m = hashmapKeyHashAlg ext hashmapAlgorithmString \<Longrightarrow>
   discipline m (\<lambda>x. Some (stringContents ext x))"
  by (simp add: discipline_def hashmapKeyEqualAlg_def hashmapStringPtrHash_def)

lemma make_string_discipline:
  "hashmapMake ext ks vs sizeHint hashmapAlgorithmString h = (m, h1) \<Longrightarrow>
   discipline m (\<lambda>x. Some (stringContents ext x))"
  by (rule string_discipline) (simp_all add: make_fields(9,10))

lemma slotsOf_clear: "slotsOf (clearBucket m b) = replicate 8 (zeroSlot m)"
  by (rule nth_equalityI) (simp_all add: slotAt_def clearBucket_def zeroSlot_def)

lemma chainSlots_clear:
  "chainSlots (map (clearBucket m) ch) = replicate (8 * length ch) (zeroSlot m)"
  by (induction ch) (simp_all add: slotsOf_clear replicate_add [symmetric])

lemma wfBucket_clear: "wfBucket m (clearBucket m b)"
  by (simp add: wfBucket_def clearBucket_def)

lemma clear_inv:
  assumes inv: "tableInv m norm h"
  shows "\<exists>h1. hashmapClear (Some m) h = (Some (m\<lparr>count := 0\<rparr>), h1) \<and>
     tableInv (m\<lparr>count := 0\<rparr>) norm h1 \<and> entriesM m h1 = {#} \<and>
     sameOutside (buckets m) h h1"
proof -
  let ?arr = "arrays h (buckets m)"
  let ?N = "unat (push_bit (unat (bucketBits m)) (1 :: uintptr))"
  let ?h1 = "h\<lparr>arrays := (arrays h)(buckets m := map (map (clearBucket m)) ?arr)\<rparr>"
  from inv have wf: "wfTable m h" and disc: "discipline m norm" by (simp_all add: tableInv_def)
  then have b: "unat (bucketBits m) \<le> 62" and len: "length ?arr = 2 ^ unat (bucketBits m)"
    by (simp_all add: wfTable_def)
  have N: "?N = length ?arr" unfolding len using b by (intro unat_push_bit_1) simp
  have res: "hashmapClear (Some m) h = (Some (m\<lparr>count := 0\<rparr>), ?h1)"
    using N by (simp add: hashmapClear_def clearLoop_all Let_def)
  have ts: "\<And>k. k < 2 ^ unat (bucketBits m) \<Longrightarrow>
      tslots m ?h1 k = replicate (8 * length (?arr ! k)) (zeroSlot m)"
    using len by (simp add: tslots_def chainAt_def chainSlots_clear)
  have e: "entriesM m ?h1 = {#}" by (simp add: entriesM_def ts)
  have wf1: "wfTable m ?h1"
    using wf by (auto simp: wfTable_def wfChain_def wfBucket_clear)
  have pl: "placed m ?h1" by (auto simp: placed_def ts)
  have "tableInv (m\<lparr>count := 0\<rparr>) norm ?h1"
    using wf1 disc pl by (simp add: tableInv_def e)
  moreover have "sameOutside (buckets m) h ?h1" by (simp add: sameOutside_def)
  ultimately show ?thesis using res e by blast
qed


lemma delete_size:
  assumes wf: "wfTable m h"
    and res: "hashmapDelete (Some m) key (hashOf m key) h = (mo, h1)"
  shows "size (entriesM m h1) =
     size (entriesM m h) - (if lookupValue m h key = None then 0 else 1)"
proof (cases "firstIndex (matches m key (topOf m key)) (tslots m h (homeOf m key))")
  case None
  with delete_entries [OF wf res] show ?thesis by (simp add: lookup_None_firstIndex)
next
  case (Some j)
  with delete_entries [OF wf res]
  have "tslots m h (homeOf m key) ! j \<in># entriesM m h"
    "entriesM m h1 = entriesM m h - {#tslots m h (homeOf m key) ! j#}" by simp_all
  then show ?thesis using Some by (simp add: lookup_None_firstIndex size_Diff_singleton)
qed

lemma delete_lookup:
  assumes inv: "tableInv m norm h" and lk: "length key = unat (keySize m)"
    and lk1: "length key1 = unat (keySize m)"
    and res: "hashmapDelete (Some m) key (hashOf m key) h = (Some m1, h1)"
  shows "lookupValue m1 h1 key1 =
     (if norm key \<noteq> None \<and> norm key1 = norm key then None else lookupValue m h key1)"
proof -
  let ?S = "tslots m h (homeOf m key)" and ?P = "matches m key (topOf m key)"
  let ?f = "keyClass norm"
  from inv have wf: "wfTable m h" and disc: "discipline m norm"
    and dist: "distinctM (classesM norm (entriesM m h))" by (simp_all add: tableInv_def)
  from delete_inv [OF inv lk res] obtain c where m1: "m1 = m\<lparr>count := c\<rparr>"
    and inv1: "tableInv (m\<lparr>count := c\<rparr>) norm h1" by auto
  have lk1': "length key1 = unat (keySize (m\<lparr>count := c\<rparr>))" using lk1 by simp
  note r = delete_entries [OF wf res]
  show ?thesis
  proof (cases "firstIndex ?P ?S")
    case None
    with r have same: "h1 = h" by simp
    have kn: "lookupValue m h key = None" using None by (simp add: lookupValue_def)
    show ?thesis
    proof (cases "norm key \<noteq> None \<and> norm key1 = norm key")
      case True
      with kn have "lookupValue m h key1 = None"
        unfolding lookup_None_entries [OF inv lk] lookup_None_entries [OF inv lk1] by simp
      with True show ?thesis by (simp add: m1 same)
    next
      case False
      then show ?thesis by (auto simp add: m1 same)
    qed
  next
    case (Some j)
    with r have mem: "?S ! j \<in># entriesM m h"
      and en: "entriesM m h1 = entriesM m h - {#?S ! j#}" by simp_all
    from Some have sj: "?S ! j \<in> set ?S" "?P (?S ! j)" by (simp_all add: firstIndex_Some_iff)
    have ws: "wfSlot m (?S ! j)" by (rule wfTable_slots [OF wf homeOf_less [OF wf] sj(1)])
    have "norm key \<noteq> None \<and> norm key = norm (fst (snd (?S ! j)))"
      using matches_class [OF disc lk ws, of "topOf m key"] sj(2) by blast
    then have live: "norm key \<noteq> None" and cj: "?f (?S ! j) = norm key"
      unfolding keyClass_def by metis+
    have "classesM norm (entriesM m h) =
        classesM norm (add_mset (?S ! j) (entriesM m h - {#?S ! j#}))"
      using mem by simp
    also have "\<dots> = add_mset (norm key) (classesM norm (entriesM m h - {#?S ! j#}))"
      using live cj by (simp add: classesM_add)
    finally have notin: "norm key \<notin># classesM norm (entriesM m h - {#?S ! j#})"
      using dist by (simp add: distinctM_add)
    show ?thesis
    proof (cases "norm key1 = norm key")
      case True
      have "norm key1 \<notin># classesM norm (entriesM (m\<lparr>count := c\<rparr>) h1)"
        using notin True by (simp add: en)
      then have "lookupValue (m\<lparr>count := c\<rparr>) h1 key1 = None"
        unfolding lookup_None_entries [OF inv1 lk1'] .
      with True live show ?thesis by (simp add: m1)
    next
      case False
      have eq: "s \<in># entriesM m h - {#?S ! j#} \<and> ?f s = norm key1 \<longleftrightarrow>
          s \<in># entriesM m h \<and> ?f s = norm key1" for s
      proof (cases "s = ?S ! j")
        case True
        with cj False show ?thesis by auto
      next
        case N: False
        then show ?thesis by (simp add: in_diff_count)
      qed
      have "lookupValue (m\<lparr>count := c\<rparr>) h1 key1 = Some v \<longleftrightarrow> lookupValue m h key1 = Some v" for v
        unfolding lookup_entries [OF inv1 lk1'] lookup_entries [OF inv lk1]
        using eq by (simp add: en)
      then have "lookupValue (m\<lparr>count := c\<rparr>) h1 key1 = lookupValue m h key1"
        by (cases "lookupValue m h key1"; cases "lookupValue (m\<lparr>count := c\<rparr>) h1 key1") auto
      with False show ?thesis by (simp add: m1)
    qed
  qed
qed

lemma set_spec_count:
  assumes inv: "tableInv m norm h" and lk: "length key = unat (keySize m)"
    and lv: "length val = unat (valueSize m)"
    and hk: "hashable m key" and fits: "growFits m"
    and fuel: "unat (count m) + 2 \<le> fuel"
  shows "\<exists>m1 h1. hashmapSet fuel m key val (hashOf m key) h = Inr (m1, h1) \<and>
     tableInv m1 norm h1 \<and>
     keySize m1 = keySize m \<and> valueSize m1 = valueSize m \<and>
     keyEqual m1 = keyEqual m \<and> keyHash m1 = keyHash m \<and> hashable m1 key \<and>
     (\<forall>key1. length key1 = unat (keySize m) \<longrightarrow>
        lookupValue m1 h1 key1 =
          (if norm key \<noteq> None \<and> norm key1 = norm key then Some val
           else lookupValue m h key1)) \<and>
     size (entriesM m1 h1) =
       size (entriesM m h) + (if lookupValue m h key = None then 1 else 0) \<and>
     bucketBits m1 = (if growsOnSet m then bucketBits m + 1 else bucketBits m) \<and>
     seed m1 = (if growsOnSet m then ucast (rand h (randPos h)) else seed m) \<and>
     buckets m1 = (if growsOnSet m then nextAddr h else buckets m) \<and>
     (\<forall>a. a \<noteq> buckets m1 \<longrightarrow> arrays h1 a = arrays h a) \<and>
     nextAddr h \<le> nextAddr h1"
proof (cases "unat (bucketBits m) \<le> 61")
  case True
  with fuel inv_unat_count [OF inv True] have "size (entriesM m h) + 2 \<le> fuel" by simp
  from set_spec [OF inv lk lv hk fits this] show ?thesis .
next
  case False
  then have "\<not> hashmapHasSpaceToGrow (bucketBits m)" by (simp add: hasSpace_iff)
  then have "hashmapSet fuel m key val (hashOf m key) h =
      hashmapSet (size (entriesM m h) + 2) m key val (hashOf m key) h"
    by (subst (1 2) hashmapSet.simps) simp
  with set_spec [OF inv lk lv hk fits order_refl] show ?thesis by simp
qed

section \<open>Tables reachable from make\<close>

text \<open>
  The tables the program can hold: made by hashmapMake, then written by hashmapSet,
  hashmapDelete and hashmapClear, each called with a key of the table's key size, a
  value of its value size and the hash the table's hash function gives the key under
  the table's own seed (as the entry points of the three disciplines compute it); in
  between, the rest of the program may allocate and write other memory (other tables
  among it), as long as it leaves the table's own bucket array alone. \<open>norm\<close> names the
  classes of the table's key equality, see \<open>discipline\<close>. The byte sizes of the arrays
  the table allocates fit into a \<open>uintptr\<close>. The recursion budget of hashmapSet is at
  least \<open>count + 2\<close>, which is enough for a growth.
\<close>

inductive reachable :: "(bytes \<Rightarrow> 'c option) \<Rightarrow> hashmap \<Rightarrow> memory \<Rightarrow> bool"
  for norm :: "bytes \<Rightarrow> 'c option" where
  make: "hashmapMake ext ks vs sizeHint alg h0 = (m, h) \<Longrightarrow> discipline m norm \<Longrightarrow>
      allocFits ks vs (unat (bucketBits m)) \<Longrightarrow> reachable norm m h"
| set: "reachable norm m h \<Longrightarrow> length key = unat (keySize m) \<Longrightarrow>
      length val = unat (valueSize m) \<Longrightarrow>
      keyHash m key (keySize m) (seed m) = Inr hash \<Longrightarrow> growFits m \<Longrightarrow>
      unat (count m) + 2 \<le> fuel \<Longrightarrow>
      hashmapSet fuel m key val hash h = Inr (m1, h1) \<Longrightarrow> reachable norm m1 h1"
| delete: "reachable norm m h \<Longrightarrow> length key = unat (keySize m) \<Longrightarrow>
      keyHash m key (keySize m) (seed m) = Inr hash \<Longrightarrow>
      hashmapDelete (Some m) key hash h = (Some m1, h1) \<Longrightarrow> reachable norm m1 h1"
| clear: "reachable norm m h \<Longrightarrow> hashmapClear (Some m) h = (Some m1, h1) \<Longrightarrow>
      reachable norm m1 h1"
| frame: "reachable norm m h \<Longrightarrow> arrays h1 (buckets m) = arrays h (buckets m) \<Longrightarrow>
      nextAddr h \<le> nextAddr h1 \<Longrightarrow> reachable norm m h1"

lemma reachable_inv: "reachable norm m h \<Longrightarrow> tableInv m norm h"
proof (induction rule: reachable.induct)
  case (make ext ks vs sizeHint alg h0 m h)
  then show ?case by (rule make_inv(1))
next
  case (set m h key val hash fuel m1 h1)
  note hk = hashable_eq [OF set.hyps(4)] and ho = hashOf_eq [OF set.hyps(4)]
  from set_spec_count [OF set.IH set.hyps(2,3) hk set.hyps(5,6)] set.hyps(7) show ?case
    by (auto simp: ho)
next
  case (delete m h key hash m1 h1)
  note ho = hashOf_eq [OF delete.hyps(3)]
  from delete_inv [OF delete.IH delete.hyps(2), of "Some m1" h1] delete.hyps(4) show ?case
    by (auto simp: ho)
next
  case (clear m h m1 h1)
  from clear_inv [OF clear.IH] clear.hyps(2) show ?case by auto
next
  case (frame m h h1)
  from tableInv_frame(1) [OF frame.hyps(2,3) frame.IH] show ?case .
qed

section \<open>Floating-point keys in the interface discipline\<close>

text \<open>
  The little-endian reading of a key cell as a 64-bit pattern.
\<close>

definition le_word :: "bytes \<Rightarrow> u64" where
  "le_word b = foldr (\<lambda>x acc. ucast x + 256 * acc) b 0"

text \<open>
  Modelled from the spec: the equality of the interface discipline is the runtime's own
  dynamic-value equality, which is not in this file. For two boxed \<open>float64\<close> values it
  is the \<open>==\<close> of the language on floats, here on the bit patterns: a NaN (exponent all
  ones, mantissa not zero) equals nothing, itself included, as the comment in
  hashmapInterfaceHash recalls; positive and negative zero are equal; any other two
  values are equal when their patterns are.
\<close>

definition isNaN64 :: "u64 \<Rightarrow> bool" where
  "isNaN64 w \<longleftrightarrow> 0xFFE0000000000000 < w * 2"

definition float64Equal :: "u64 \<Rightarrow> u64 \<Rightarrow> bool" where
  "float64Equal a b \<longleftrightarrow>
     \<not> isNaN64 a \<and> \<not> isNaN64 b \<and>
     (a = b \<or> ((a = 0 \<or> a = 0x8000000000000000) \<and> (b = 0 \<or> b = 0x8000000000000000)))"

text \<open>
  An environment whose boxed values are all \<open>float64\<close>: the key cell holds the eight
  bytes of the value.
\<close>

definition floatExt :: externals where
  "floatExt =
     \<lparr>hash32 = (\<lambda>b n s. foldr (\<lambda>x acc. ucast x + 31 * acc) (take (unat n) b) (ucast s)),
      stringContents = (\<lambda>b. b),
      reflectValueOf = (\<lambda>b. RFloat64 (le_word b)),
      interfaceEqual = (\<lambda>x y. float64Equal (le_word x) (le_word y))\<rparr>"

definition floatNorm :: "bytes \<Rightarrow> u64 option" where
  "floatNorm b =
     (if isNaN64 (le_word b) then None
      else Some (if le_word b = 0x8000000000000000 then 0 else le_word b))"

lemma negzero_not_nan: "\<not> isNaN64 0x8000000000000000" "\<not> isNaN64 0"
  by (simp_all add: isNaN64_def)

lemma float_discipline:
  assumes "keyEqual m = hashmapKeyEqualAlg floatExt hashmapAlgorithmInterface"
    and "keyHash m = hashmapKeyHashAlg floatExt hashmapAlgorithmInterface"
  shows "discipline m floatNorm"
proof -
  have eq: "float64Equal a b \<longleftrightarrow>
      \<not> isNaN64 a \<and> \<not> isNaN64 b \<and>
      (if a = 0x8000000000000000 then 0 else a) = (if b = 0x8000000000000000 then 0 else b)"
    for a b
    by (auto simp: float64Equal_def)
  have d1: "keyEqual m x y n = (floatNorm x \<noteq> None \<and> floatNorm x = floatNorm y)" for x y n
    by (auto simp: assms(1) hashmapKeyEqualAlg_def floatExt_def eq floatNorm_def)
  have d2: "floatNorm x = floatNorm y \<Longrightarrow> floatNorm x \<noteq> None \<Longrightarrow>
      keyHash m x n s = keyHash m y n s" for x y n s
    by (auto simp: assms(2) floatExt_def floatNorm_def hashmapFloat64Hash_def Let_def
        split: if_splits)
  have d3: "\<not> isl (keyHash m x n s)" for x n s
    by (simp add: assms(2) floatExt_def)
  show ?thesis unfolding discipline_def using d1 d2 d3 by blast
qed

definition nanKey :: bytes where
  "nanKey = [0, 0, 0, 0, 0, 0, 0xF8, 0x7F]"

lemma le_word_nanKey: "le_word nanKey = 0x7FF8000000000000"
  by (simp add: le_word_def nanKey_def)

lemma nanKey_isNaN: "isNaN64 (le_word nanKey)"
  by (simp add: le_word_nanKey isNaN64_def)

definition floatTable :: "hashmap \<times> memory" where
  "floatTable = hashmapMake floatExt 8 1 0 hashmapAlgorithmInterface exampleMemory"

lemma floatTable_eval:
  "floatTable =
     (\<lparr>buckets = 1, seed = 0, count = 0, keySize = 8, valueSize = 1, bucketBits = 0,
       keyEqual = hashmapKeyEqualAlg floatExt hashmapAlgorithmInterface,
       keyHash = hashmapKeyHashAlg floatExt hashmapAlgorithmInterface\<rparr>,
      \<lparr>arrays = (\<lambda>a. [])(1 := [[zeroBucket 8 1]]), nextAddr = 2, rand = (\<lambda>i. of_nat i), randPos = 1\<rparr>)"
  by (simp add: floatTable_def hashmapMake_def makeBits_0 allocBuckets_def fastrand_def
      exampleMemory_def bucketBufSize_def)

lemma nan_never_equal:
  "hashmapKeyEqualAlg floatExt hashmapAlgorithmInterface nanKey y n = False"
  by (simp add: hashmapKeyEqualAlg_def floatExt_def float64Equal_def nanKey_isNaN)

lemma reflect_float [simp]: "reflectValueOf floatExt b = RFloat64 (le_word b)"
  by (simp add: floatExt_def)

section \<open>Set followed by get\<close>

lemma exampleTable_reachable: "reachable Some (fst exampleTable) (snd exampleTable)"
proof -
  have mk: "hashmapMake exampleExt 1 1 0 hashmapAlgorithmBinary exampleMemory
      = (fst exampleTable, snd exampleTable)"
    by (simp add: exampleTable_def)
  have "allocFits 1 1 (unat (bucketBits (fst exampleTable)))"
    by (simp add: exampleTable_eval allocFits_def)
  with mk make_binary_discipline [OF mk] show ?thesis by (rule reachable.make)
qed

lemma self_equal_live:
  "discipline m norm \<Longrightarrow> length key = unat (keySize m) \<Longrightarrow>
   keyEqual m key key (keySize m) \<Longrightarrow> norm key \<noteq> None"
  unfolding discipline_def by blast

text \<open>
  Claim C1, for the keys it holds for. Take any table reached from hashmapMake (see
  \<open>reachable\<close>), a key of the table's key size that the table's hash function hashes
  (it does not panic: the key can be compared) and that equals itself under the table's
  equality (it is not a NaN), and a value and an output buffer of the table's value
  size. Then hashmapSet returns, and a following hashmapGet of the same key, with the
  hash the table now gives it, returns true with exactly that value in the output
  buffer. The same is said through the set and get entry points of the binary, the
  string and the interface discipline.
\<close>

theorem set_then_get:
  assumes "reachable norm m h" and "length key = unat (keySize m)"
    and "length val = unat (valueSize m)" and "length out = unat (valueSize m)"
    and "keyHash m key (keySize m) (seed m) = Inr hash"
    and "keyEqual m key key (keySize m)"
    and "growFits m" and "unat (count m) + 2 \<le> fuel"
  shows "\<exists>m1 h1 hash1. hashmapSet fuel m key val hash h = Inr (m1, h1) \<and>
     keyHash m1 key (keySize m1) (seed m1) = Inr hash1 \<and>
     hashmapGet (Some m1) key out valueSz hash1 h1 = (val, True) \<and>
     (keyHash m = hashmapKeyHashAlg ext hashmapAlgorithmBinary \<longrightarrow>
        hashmapBinarySet ext fuel (Some m) key val h = Inr (m1, h1) \<and>
        hashmapBinaryGet ext (Some m1) key out valueSz h1 = (val, True)) \<and>
     (keyHash m = hashmapKeyHashAlg ext hashmapAlgorithmString \<longrightarrow>
        hashmapStringSet ext fuel (Some m) key val h = Inr (m1, h1) \<and>
        hashmapStringGet ext (Some m1) key out valueSz h1 = (val, True)) \<and>
     (keyHash m = hashmapKeyHashAlg ext hashmapAlgorithmInterface \<longrightarrow>
        hashmapInterfaceSet ext fuel (Some m) key val h = Inr (m1, h1) \<and>
        hashmapInterfaceGet ext (Some m1) key out valueSz h1 = Inr (val, True))"
proof -
  note inv = reachable_inv [OF assms(1)]
  from inv have disc: "discipline m norm" by (simp add: tableInv_def)
  note live = self_equal_live [OF disc assms(2,6)]
  note hk = hashable_eq [OF assms(5)] and ho = hashOf_eq [OF assms(5)]
  from set_spec_count [OF inv assms(2,3) hk assms(7,8)] obtain m1 h1 where
    st: "hashmapSet fuel m key val hash h = Inr (m1, h1)"
    and inv1: "tableInv m1 norm h1"
    and f: "keySize m1 = keySize m" "valueSize m1 = valueSize m" "keyHash m1 = keyHash m"
    and hk1: "hashable m1 key"
    and lu: "\<forall>key1. length key1 = unat (keySize m) \<longrightarrow>
        lookupValue m1 h1 key1 =
          (if norm key \<noteq> None \<and> norm key1 = norm key then Some val
           else lookupValue m h key1)"
    unfolding ho by blast
  from lu assms(2) live have l: "lookupValue m1 h1 key = Some val" by simp
  from inv1 have wf1: "wfTable m1 h1" by (simp add: tableInv_def)
  have lo: "length out = unat (valueSize m1)" using assms(4) f by simp
  note kh1 = hashable_hashOf [OF hk1]
  have g: "hashmapGet (Some m1) key out valueSz (hashOf m1 key) h1 = (val, True)"
    using get_lookupValue [OF wf1 lo, of key valueSz] l by simp
  have b: "keyHash m = hashmapKeyHashAlg ext hashmapAlgorithmBinary \<longrightarrow>
        hashmapBinarySet ext fuel (Some m) key val h = Inr (m1, h1) \<and>
        hashmapBinaryGet ext (Some m1) key out valueSz h1 = (val, True)"
  proof
    assume a: "keyHash m = hashmapKeyHashAlg ext hashmapAlgorithmBinary"
    have "hash32 ext key (keySize m) (seed m) = hash" using assms(5) by (simp add: a)
    moreover have "hash32 ext key (keySize m1) (seed m1) = hashOf m1 key"
      using kh1 by (simp add: f a)
    ultimately show "hashmapBinarySet ext fuel (Some m) key val h = Inr (m1, h1) \<and>
        hashmapBinaryGet ext (Some m1) key out valueSz h1 = (val, True)"
      using st g by (simp add: hashmapBinarySet_def hashmapBinaryGet_def)
  qed
  have s: "keyHash m = hashmapKeyHashAlg ext hashmapAlgorithmString \<longrightarrow>
        hashmapStringSet ext fuel (Some m) key val h = Inr (m1, h1) \<and>
        hashmapStringGet ext (Some m1) key out valueSz h1 = (val, True)"
  proof
    assume a: "keyHash m = hashmapKeyHashAlg ext hashmapAlgorithmString"
    have "hashmapStringHash ext (stringContents ext key) (seed m) = hash"
      using assms(5) by (simp add: a hashmapStringPtrHash_def hashmapStringHash_def)
    moreover have "hashmapStringHash ext (stringContents ext key) (seed m1) = hashOf m1 key"
      using kh1 by (simp add: f a hashmapStringPtrHash_def hashmapStringHash_def)
    ultimately show "hashmapStringSet ext fuel (Some m) key val h = Inr (m1, h1) \<and>
        hashmapStringGet ext (Some m1) key out valueSz h1 = (val, True)"
      using st g by (simp add: hashmapStringSet_def hashmapStringGet_def)
  qed
  have i: "keyHash m = hashmapKeyHashAlg ext hashmapAlgorithmInterface \<longrightarrow>
        hashmapInterfaceSet ext fuel (Some m) key val h = Inr (m1, h1) \<and>
        hashmapInterfaceGet ext (Some m1) key out valueSz h1 = Inr (val, True)"
  proof
    assume a: "keyHash m = hashmapKeyHashAlg ext hashmapAlgorithmInterface"
    have "hashmapInterfaceHash ext (reflectValueOf ext key) (seed m) = Inr hash"
      using assms(5) by (simp add: a)
    moreover have "hashmapInterfaceHash ext (reflectValueOf ext key) (seed m1)
        = Inr (hashOf m1 key)"
      using kh1 by (simp add: f a)
    ultimately show "hashmapInterfaceSet ext fuel (Some m) key val h = Inr (m1, h1) \<and>
        hashmapInterfaceGet ext (Some m1) key out valueSz h1 = Inr (val, True)"
      using st g by (simp add: hashmapInterfaceSet_def hashmapInterfaceGet_def)
  qed
  from st kh1 g b s i show ?thesis by blast
qed

theorem set_then_get_witness:
  "\<exists>m1 h1. hashmapBinarySet exampleExt 2 (Some (fst exampleTable)) [1] [9] (snd exampleTable)
       = Inr (m1, h1) \<and>
     hashmapBinaryGet exampleExt (Some m1) [1] [0] 1 h1 = ([9], True)"
  using set_then_get [OF exampleTable_reachable, where key = "[1]" and val = "[9]"
      and out = "[0]" and fuel = 2 and ext = exampleExt and valueSz = 1
      and hash = "hash32 exampleExt [1] 1 0"]
  apply (simp add: exampleTable_eval growFits_def hashmapOverLoadFactor_def memequal_def)
  apply blast
  done

text \<open>
  Claim C1 as stated fails on a key that does not equal itself. In a fresh table of the
  interface discipline with \<open>float64\<close> keys, setting the value 7 under a NaN key stores
  the entry (count becomes 1), and the get of the same key that follows misses: it
  returns false and a zeroed output buffer.
\<close>

theorem set_nan_then_get_misses:
  "(case floatTable of
      (m, h) \<Rightarrow>
        (case hashmapInterfaceSet floatExt 2 (Some m) nanKey [7] h of
           Inl e \<Rightarrow> False
         | Inr (m1, h1) \<Rightarrow>
             count m1 = 1 \<and>
             hashmapInterfaceGet floatExt (Some m1) nanKey [0] 1 h1 = Inr ([0], False)))"
  apply (simp add: floatTable_eval hashmapInterfaceSet_def hashmapInterfaceGet_def)
  apply (simp add: hashmapSet.simps hashmapHasSpaceToGrow_def hashmapOverLoadFactor_def
      hashmapSetInsert_def hashmapGet_def chainAt_def storeChain_def zeroBucket_def rep8
      upt8 nan_never_equal fillSlot_def Let_def memzero_def
      hashmapBucketAddrForHash_def)
  apply (simp add: hashmapInterfaceGet_def hashmapGet_def chainAt_def upt8 nan_never_equal
      memzero_def hashmapBucketAddrForHash_def)
  done

section \<open>Repeated delete\<close>

text \<open>
  Claim C6. On any reachable table, whatever a first hashmapDelete of a key returns
  (table and memory), a second hashmapDelete of the same key with the same hash returns
  exactly the same table and the same memory: it finds no matching occupied slot and
  writes nothing.
\<close>

theorem delete_idempotent:
  assumes "reachable norm m h" and "length key = unat (keySize m)"
    and "keyHash m key (keySize m) (seed m) = Inr hash"
    and "hashmapDelete (Some m) key hash h = (mo1, h1)"
  shows "hashmapDelete mo1 key hash h1 = (mo1, h1)"
proof -
  note inv = reachable_inv [OF assms(1)]
  note ho = hashOf_eq [OF assms(3)]
  have res0: "hashmapDelete (Some m) key (hashOf m key) h = (mo1, h1)"
    using assms(4) by (simp add: ho)
  from delete_inv [OF inv assms(2) res0] obtain c where
    mo1: "mo1 = Some (m\<lparr>count := c\<rparr>)" and inv1: "tableInv (m\<lparr>count := c\<rparr>) norm h1"
    by blast
  have res: "hashmapDelete (Some m) key (hashOf m key) h = (Some (m\<lparr>count := c\<rparr>), h1)"
    using res0 mo1 by simp
  have none: "lookupValue m h1 key = None"
  proof (cases "norm key = None")
    case True
    from lookup_dead [OF inv1 _ True] assms(2) show ?thesis by simp
  next
    case False
    with delete_lookup [OF inv assms(2) assms(2) res] show ?thesis by simp
  qed
  then have "firstIndex (matches m key (topOf m key)) (tslots m h1 (homeOf m key)) = None"
    by (simp add: lookup_None_firstIndex)
  then have "firstIndex (matches (m\<lparr>count := c\<rparr>) key (hashmapTopHash hash))
      (tslots (m\<lparr>count := c\<rparr>) h1 (hashmapBucketAddrForHash (m\<lparr>count := c\<rparr>) hash)) = None"
    by (simp add: topOf_def homeOf_def hashmapBucketAddrForHash_def ho)
  from delete_none [OF this] show ?thesis by (simp add: mo1)
qed

lemma exampleTable1_reachable:
  "exampleTable1 = Inr (m, h) \<Longrightarrow> reachable Some m h"
proof -
  assume e: "exampleTable1 = Inr (m, h)"
  have st: "hashmapSet 2 (fst exampleTable) [1] [9] (hash32 exampleExt [1] 1 0) (snd exampleTable)
      = Inr (m, h)"
    using e by (simp add: exampleTable1_def hashmapBinarySet_def exampleTable_eval)
  show ?thesis
    by (rule reachable.set [OF exampleTable_reachable _ _ _ _ _ st])
      (simp_all add: exampleTable_eval growFits_def hashmapOverLoadFactor_def)
qed

theorem delete_idempotent_witness:
  "case exampleTable1 of Inl e \<Rightarrow> False
   | Inr (m, h) \<Rightarrow>
       (case hashmapDelete (Some m) [1] (hash32 exampleExt [1] 1 0) h of
          (mo1, h1) \<Rightarrow> mo1 = Some (m\<lparr>count := 0\<rparr>) \<and>
             hashmapDelete mo1 [1] (hash32 exampleExt [1] 1 0) h1 = (mo1, h1))"
proof -
  obtain m h where e: "exampleTable1 = Inr (m, h)" by (simp add: exampleTable1_eval)
  obtain mo1 h1 where d: "hashmapDelete (Some m) [1] (hash32 exampleExt [1] 1 0) h = (mo1, h1)"
    by (cases "hashmapDelete (Some m) [1] (hash32 exampleExt [1] 1 0) h") blast
  have k: "length [1 :: u8] = unat (keySize m)" using e by (auto simp: exampleTable1_eval)
  have kh: "keyHash m [1] (keySize m) (seed m) = Inr (hash32 exampleExt [1] 1 0)"
    using e by (auto simp: exampleTable1_eval)
  have i: "hashmapDelete mo1 [1] (hash32 exampleExt [1] 1 0) h1 = (mo1, h1)"
    using delete_idempotent [OF exampleTable1_reachable [OF e] k kh d] .
  have mo: "mo1 = Some (m\<lparr>count := 0\<rparr>)"
    using e d by (auto simp: exampleTable1_eval hashmapDelete_def deleteSlot_def
        eval_defs rep8 rep2)
  show ?thesis
    using i mo
    apply (subst e)
    apply (simp only: sum.case prod.case d)
    done
qed

end
